theory Spec2Isabelle
  imports Main "HOL-Library.Word"
begin

section \<open>Data model of \<^verbatim>\<open>tensor_converter.cpp\<close>\<close>

text \<open>
  An address is a pointer-sized bit pattern; the null pointer is the pattern \<open>0\<close>.
  \<^verbatim>\<open>AtenTensorHandle\<close> (an opaque pointer) and \<^verbatim>\<open>at::Tensor*\<close> are two pointer types
  over the same bit patterns, kept apart as two datatypes.
\<close>

type_synonym addr = "64 word"

datatype AtenTensorHandle = AtenTensorHandle (handle_bits: addr)

datatype tensor_ptr = TensorPtr (ptr_bits: addr)

definition nullptr :: AtenTensorHandle where
  "nullptr = AtenTensorHandle 0"

text \<open>
  Modelled from the spec: the Native Value type \<^verbatim>\<open>at::Tensor\<close> and its move constructor
  are declared outside \<^verbatim>\<open>tensor_converter.cpp\<close>. The spec describes a value with a payload
  that is "owned exactly once", and a move that leaves the source in the "moved-from state"
  (a "moved-from shell" whose "payload is no longer defined"). A tensor is therefore
  a payload of an arbitrary type \<open>'p\<close> or the moved-from shell, and move construction
  returns the new object (equal by value to the old source) with what is left in the source.
\<close>

datatype 'p tensor = Tensor 'p | MovedFrom

definition move_construct :: "'p tensor \<Rightarrow> 'p tensor \<times> 'p tensor" where
  "move_construct src = (src, MovedFrom)"

text \<open>
  The store of live \<^verbatim>\<open>at::Tensor\<close> objects that pointers and handles can refer to, by
  address. An address outside the domain is not a live object (never allocated, or freed).
\<close>

type_synonym 'p heap = "addr \<rightharpoonup> 'p tensor"

text \<open>
  The memory the two bulk operations work on: the caller's array behind the parameter
  \<^verbatim>\<open>at::Tensor* tensors\<close>, the caller's array behind \<^verbatim>\<open>AtenTensorHandle* handles\<close>, and
  the store of boxed values. The arrays are as long as the caller made them; the
  \<^verbatim>\<open>length\<close> argument of an operation is a separate number, as in the source.
\<close>

record 'p memory =
  tensors :: "'p tensor list"
  handles :: "AtenTensorHandle list"
  heap :: "'p heap"

text \<open>
  What can go wrong. \<open>BadAlloc\<close> is the \<^verbatim>\<open>std::bad_alloc\<close> thrown by \<^verbatim>\<open>new\<close> or by
  a \<^verbatim>\<open>std::vector\<close> that cannot get its storage, \<open>LengthError\<close> the \<^verbatim>\<open>std::length_error\<close>
  thrown by a \<^verbatim>\<open>std::vector\<close> asked for more than \<^verbatim>\<open>max_size()\<close> elements. The other
  three are undefined behaviour in C++ (the source checks none of them); the model
  stops with an error value where the source would read through a null pointer, read
  through a pointer to no live object, or index an array beyond its end.
\<close>

datatype error = BadAlloc | LengthError | NullDeref | DanglingDeref | OutOfBounds

text \<open>
  The allocation function behind \<^verbatim>\<open>new at::Tensor(...)\<close> belongs to the C++ runtime and is
  a parameter of the model: given the store it returns the address of the new box, or
  \<open>None\<close> when it throws \<^verbatim>\<open>std::bad_alloc\<close>. What C++ guarantees of it is that the address
  is not null and is not the address of a live object.
\<close>

type_synonym 'p allocator = "'p heap \<Rightarrow> addr option"

definition allocator_ok :: "'p allocator \<Rightarrow> bool" where
  "allocator_ok new \<longleftrightarrow> (\<forall>h a. new h = Some a \<longrightarrow> a \<noteq> 0 \<and> h a = None)"

text \<open>
  The allocation function has room for \<open>n\<close> more boxes on the store \<open>h0\<close>: it answers
  with an address on every store that holds the objects of \<open>h0\<close> and fewer than \<open>n\<close>
  further ones.
\<close>

definition has_room :: "'p allocator \<Rightarrow> 'p heap \<Rightarrow> nat \<Rightarrow> bool" where
  "has_room new h0 n \<longleftrightarrow>
     (\<forall>h. dom h0 \<subseteq> dom h \<and> finite (dom h - dom h0) \<and> card (dom h - dom h0) < n
          \<longrightarrow> new h \<noteq> None)"

text \<open>
  Both bulk operations build their result in a \<^verbatim>\<open>std::vector\<close>, whose storage for
  \<open>length\<close> elements is requested before the loop starts:
  \<^verbatim>\<open>std::vector<AtenTensorHandle> result(length)\<close> in bulk allocation and
  \<^verbatim>\<open>result.reserve(length)\<close> in bulk reclamation. The request throws
  \<^verbatim>\<open>std::length_error\<close> when the length exceeds \<^verbatim>\<open>max_size()\<close> and \<^verbatim>\<open>std::bad_alloc\<close>
  when the storage cannot be had. Like \<^verbatim>\<open>new\<close>, this belongs to the C++ runtime and is
  a parameter: for the store at the time of the request and the number of elements
  it tells which of the two is thrown, or \<open>None\<close> when the storage is obtained.
\<close>

datatype vector_failure = VectorLengthError | VectorBadAlloc

fun thrown :: "vector_failure \<Rightarrow> error" where
  "thrown VectorLengthError = LengthError"
| "thrown VectorBadAlloc = BadAlloc"

type_synonym 'p vector_allocator = "'p heap \<Rightarrow> nat \<Rightarrow> vector_failure option"

text \<open>
  The C++ runtime as the two operations see it: the allocation function behind
  \<^verbatim>\<open>new at::Tensor(...)\<close>, and the storage requests of \<^verbatim>\<open>std::vector<AtenTensorHandle>\<close>
  and of \<^verbatim>\<open>std::vector<at::Tensor>\<close>.
\<close>

record 'p runtime =
  new_tensor :: "'p allocator"
  new_handle_vector :: "'p vector_allocator"
  new_tensor_vector :: "'p vector_allocator"

text \<open>
  A request for no elements asks the runtime for nothing: the constructor of a vector
  of length 0 allocates no storage, and \<^verbatim>\<open>reserve(0)\<close> on an empty vector has no effect.
  Otherwise the runtime decides. The result is the error thrown, if any.
\<close>

definition vector_storage :: "'p vector_allocator \<Rightarrow> 'p heap \<Rightarrow> nat \<Rightarrow> error option" where
  "vector_storage alloc h n = (if n = 0 then None else map_option thrown (alloc h n))"

section \<open>Handle/pointer coercion\<close>

text \<open>
  Each body is a single \<^verbatim>\<open>reinterpret_cast\<close> of the argument: the two functions read
  and write no memory and call nothing, so each is a function of its argument alone,
  defined on every bit pattern.
\<close>

definition tensor_handle_to_tensor_pointer :: "AtenTensorHandle \<Rightarrow> tensor_ptr" where
  "tensor_handle_to_tensor_pointer handle = TensorPtr (handle_bits handle)"

definition tensor_pointer_to_tensor_handle :: "tensor_ptr \<Rightarrow> AtenTensorHandle" where
  "tensor_pointer_to_tensor_handle tensor = AtenTensorHandle (ptr_bits tensor)"

section \<open>Bulk handle allocation\<close>

text \<open>
  The loop \<^verbatim>\<open>for (size_t i = 0; i < length; i++)\<close> of
  \<^verbatim>\<open>unsafe_alloc_new_handles_from_tensors\<close>, from the state in which \<open>i\<close> iterations are done.
  The index never exceeds \<open>len\<close>, so \<^verbatim>\<open>i++\<close> cannot wrap and the counter is a natural number.
  In \<^verbatim>\<open>new at::Tensor(std::move(tensors[i]))\<close> the allocation function runs first and may
  throw; then the box is move-constructed from slot \<open>i\<close> of the input array, which leaves
  the shell in that slot. \<^verbatim>\<open>result\<close> has \<open>len\<close> slots from its constructor, so
  \<^verbatim>\<open>result[i] = ...\<close> is always in range.
\<close>

function alloc_loop ::
  "'p allocator \<Rightarrow> nat \<Rightarrow> nat \<Rightarrow> AtenTensorHandle list \<Rightarrow> 'p memory
    \<Rightarrow> (error + AtenTensorHandle list) \<times> 'p memory" where
  "alloc_loop new len i result m =
     (if i < len then
        (case new (heap m) of
           None \<Rightarrow> (Inl BadAlloc, m)
         | Some a \<Rightarrow>
             if length (tensors m) \<le> i then (Inl OutOfBounds, m)
             else
               let (v, shell) = move_construct (tensors m ! i);
                   allocated = TensorPtr a;
                   m' = m\<lparr>tensors := (tensors m)[i := shell], heap := (heap m)(a \<mapsto> v)\<rparr>;
                   result' = result[i := tensor_pointer_to_tensor_handle allocated]
               in alloc_loop new len (i + 1) result' m')
      else (Inr result, m))"
  by pat_completeness auto
termination
  by (relation "measure (\<lambda>(new, len, i, result, m). len - i)") auto

declare alloc_loop.simps [simp del]

text \<open>
  \<^verbatim>\<open>std::vector<AtenTensorHandle> result(length)\<close> comes first: it throws, with nothing
  touched, or it holds \<open>len\<close> null handles and the loop starts. A \<^verbatim>\<open>size_t\<close> is a natural
  number below \<open>2^64\<close>; what is proved for every natural number \<open>len\<close> holds for those.
\<close>

definition unsafe_alloc_new_handles_from_tensors ::
  "'p runtime \<Rightarrow> nat \<Rightarrow> 'p memory \<Rightarrow> (error + AtenTensorHandle list) \<times> 'p memory" where
  "unsafe_alloc_new_handles_from_tensors rt len m =
     (case vector_storage (new_handle_vector rt) (heap m) len of
        Some e \<Rightarrow> (Inl e, m)
      | None \<Rightarrow> alloc_loop (new_tensor rt) len 0 (replicate len nullptr) m)"

section \<open>Bulk handle reclamation\<close>

text \<open>Reading through \<^verbatim>\<open>*p\<close>: the object at the address, if there is one.\<close>

definition deref :: "tensor_ptr \<Rightarrow> 'p heap \<Rightarrow> error + 'p tensor" where
  "deref p h =
     (if ptr_bits p = 0 then Inl NullDeref
      else case h (ptr_bits p) of None \<Rightarrow> Inl DanglingDeref | Some v \<Rightarrow> Inr v)"

text \<open>
  The loop of \<^verbatim>\<open>alloc_tensors_by_stealing_from_handles\<close>. One iteration reads slot \<open>i\<close>
  of the handle array, coerces it, move-constructs the new last element of \<^verbatim>\<open>result\<close>
  from the pointee (\<^verbatim>\<open>emplace_back\<close>; the pointee keeps the shell), and then stores
  \<^verbatim>\<open>nullptr\<close> in slot \<open>i\<close>.
\<close>

function steal_loop ::
  "nat \<Rightarrow> nat \<Rightarrow> 'p tensor list \<Rightarrow> 'p memory \<Rightarrow> (error + 'p tensor list) \<times> 'p memory" where
  "steal_loop len i result m =
     (if i < len then
        if length (handles m) \<le> i then (Inl OutOfBounds, m)
        else
          let p = tensor_handle_to_tensor_pointer (handles m ! i) in
          (case deref p (heap m) of
             Inl e \<Rightarrow> (Inl e, m)
           | Inr src \<Rightarrow>
               let (v, shell) = move_construct src;
                   m1 = m\<lparr>heap := (heap m)(ptr_bits p \<mapsto> shell)\<rparr>;
                   result' = result @ [v];
                   m2 = m1\<lparr>handles := (handles m1)[i := nullptr]\<rparr>
               in steal_loop len (i + 1) result' m2)
      else (Inr result, m))"
  by pat_completeness auto
termination
  by (relation "measure (\<lambda>(len, i, result, m). len - i)") auto

declare steal_loop.simps [simp del]

text \<open>
  \<^verbatim>\<open>result\<close> starts empty. \<^verbatim>\<open>result.reserve(length)\<close> throws, with nothing touched, or
  gives the vector the capacity for \<open>len\<close> elements, so that no \<^verbatim>\<open>emplace_back\<close> of the
  loop allocates.
\<close>

definition alloc_tensors_by_stealing_from_handles ::
  "'p runtime \<Rightarrow> nat \<Rightarrow> 'p memory \<Rightarrow> (error + 'p tensor list) \<times> 'p memory" where
  "alloc_tensors_by_stealing_from_handles rt len m =
     (case vector_storage (new_tensor_vector rt) (heap m) len of
        Some e \<Rightarrow> (Inl e, m)
      | None \<Rightarrow> steal_loop len 0 [] m)"

section \<open>The memory after one iteration\<close>

text \<open>
  What one successful iteration of each loop does to the memory, as a function of its
  own: the loop equations below (\<open>alloc_loop_step\<close>, \<open>steal_loop_step\<close>) derive
  them from the loops.
\<close>

definition box_input :: "addr \<Rightarrow> nat \<Rightarrow> 'p memory \<Rightarrow> 'p memory" where
  "box_input a i m = m\<lparr>tensors := (tensors m)[i := MovedFrom], heap := (heap m)(a \<mapsto> tensors m ! i)\<rparr>"

definition steal_slot :: "nat \<Rightarrow> 'p memory \<Rightarrow> 'p memory" where
  "steal_slot i m =
     m\<lparr>heap := (heap m)(handle_bits (handles m ! i) \<mapsto> MovedFrom),
       handles := (handles m)[i := nullptr]\<rparr>"

section \<open>The scenario of three values\<close>

text \<open>
  An array of the three values A, B, C on an empty store, with an allocation function
  that hands out three addresses and then fails; the handles and the memory that bulk
  allocation then produces, and the memory that bulk reclamation leaves.
\<close>

definition example_new :: "string allocator" where
  "example_new h =
     (if h 16 = None then Some 16
      else if h 32 = None then Some 32
      else if h 48 = None then Some 48
      else None)"

definition example_values :: "string memory" where
  "example_values =
     \<lparr>tensors = [Tensor ''A'', Tensor ''B'', Tensor ''C''], handles = [], heap = Map.empty\<rparr>"

definition example_boxed :: "string memory" where
  "example_boxed =
     \<lparr>tensors = [MovedFrom, MovedFrom, MovedFrom], handles = [],
      heap = [16 \<mapsto> Tensor ''A'', 32 \<mapsto> Tensor ''B'', 48 \<mapsto> Tensor ''C'']\<rparr>"

definition example_handles :: "AtenTensorHandle list" where
  "example_handles = [AtenTensorHandle 16, AtenTensorHandle 32, AtenTensorHandle 48]"

definition example_emptied :: "string memory" where
  "example_emptied =
     \<lparr>tensors = [MovedFrom, MovedFrom, MovedFrom], handles = [nullptr, nullptr, nullptr],
      heap = [16 \<mapsto> MovedFrom, 32 \<mapsto> MovedFrom, 48 \<mapsto> MovedFrom]\<rparr>"

text \<open>
  Variations of the scenario: an allocation function with room for two boxes only, and
  the memory in which it gives up; the three handles stored in the caller's handle
  array, and the memory after the first of them is reclaimed; a handle array of four
  slots of which three are reclaimed.
\<close>

definition example_small_new :: "string allocator" where
  "example_small_new h =
     (if h 16 = None then Some 16
      else if h 32 = None then Some 32
      else None)"

definition example_partial :: "string memory" where
  "example_partial =
     \<lparr>tensors = [MovedFrom, MovedFrom, Tensor ''C''], handles = [],
      heap = [16 \<mapsto> Tensor ''A'', 32 \<mapsto> Tensor ''B'']\<rparr>"

definition example_bound :: "string memory" where
  "example_bound = example_boxed\<lparr>handles := example_handles\<rparr>"

definition example_one_taken :: "string memory" where
  "example_one_taken =
     \<lparr>tensors = [MovedFrom, MovedFrom, MovedFrom],
      handles = [nullptr, AtenTensorHandle 32, AtenTensorHandle 48],
      heap = [16 \<mapsto> MovedFrom, 32 \<mapsto> Tensor ''B'', 48 \<mapsto> Tensor ''C'']\<rparr>"

definition example_wide :: "string memory" where
  "example_wide =
     \<lparr>tensors = [Tensor ''T''],
      handles = [AtenTensorHandle 16, AtenTensorHandle 32, AtenTensorHandle 48,
                 AtenTensorHandle 64],
      heap = [16 \<mapsto> Tensor ''A'', 32 \<mapsto> Tensor ''B'', 48 \<mapsto> Tensor ''C'',
              64 \<mapsto> Tensor ''D'']\<rparr>"

definition example_wide_emptied :: "string memory" where
  "example_wide_emptied =
     \<lparr>tensors = [Tensor ''T''],
      handles = [nullptr, nullptr, nullptr, AtenTensorHandle 64],
      heap = [16 \<mapsto> MovedFrom, 32 \<mapsto> MovedFrom, 48 \<mapsto> MovedFrom,
              64 \<mapsto> Tensor ''D'']\<rparr>"

text \<open>
  The runtimes of the scenario. A vector gets its storage for up to eight elements;
  beyond a thousand elements the request exceeds \<^verbatim>\<open>max_size()\<close>.
\<close>

definition example_vectors :: "string vector_allocator" where
  "example_vectors h n =
     (if 1000 < n then Some VectorLengthError
      else if 8 < n then Some VectorBadAlloc
      else None)"

definition example_runtime :: "string runtime" where
  "example_runtime =
     \<lparr>new_tensor = example_new, new_handle_vector = example_vectors,
      new_tensor_vector = example_vectors\<rparr>"

definition example_small_runtime :: "string runtime" where
  "example_small_runtime =
     \<lparr>new_tensor = example_small_new, new_handle_vector = example_vectors,
      new_tensor_vector = example_vectors\<rparr>"

section \<open>Properties of the allocation loop\<close>

lemma allocator_okD:
  "allocator_ok new \<Longrightarrow> new h = Some a \<Longrightarrow> a \<noteq> 0 \<and> h a = None"
  by (simp add: allocator_ok_def)

lemma alloc_loop_done:
  "\<not> i < len \<Longrightarrow> alloc_loop new len i res m = (Inr res, m)"
  by (simp add: alloc_loop.simps)

lemma alloc_loop_bad_alloc:
  "i < len \<Longrightarrow> new (heap m) = None \<Longrightarrow> alloc_loop new len i res m = (Inl BadAlloc, m)"
  by (simp add: alloc_loop.simps)

lemma alloc_loop_out_of_bounds:
  "i < len \<Longrightarrow> new (heap m) = Some a \<Longrightarrow> length (tensors m) \<le> i
    \<Longrightarrow> alloc_loop new len i res m = (Inl OutOfBounds, m)"
  by (simp add: alloc_loop.simps)

lemma alloc_loop_step:
  "i < len \<Longrightarrow> new (heap m) = Some a \<Longrightarrow> i < length (tensors m)
    \<Longrightarrow> alloc_loop new len i res m
        = alloc_loop new len (Suc i) (res[i := AtenTensorHandle a]) (box_input a i m)"
  by (subst alloc_loop.simps)
     (simp add: move_construct_def tensor_pointer_to_tensor_handle_def box_input_def)

lemma alloc_loop_cases:
  obtains (finished) "\<not> i < len" "alloc_loop new len i res m = (Inr res, m)"
  | (bad_alloc) "i < len" "new (heap m) = None" "alloc_loop new len i res m = (Inl BadAlloc, m)"
  | (out_of_bounds) a where "i < len" "new (heap m) = Some a" "length (tensors m) \<le> i"
      "alloc_loop new len i res m = (Inl OutOfBounds, m)"
  | (step) a where "i < len" "new (heap m) = Some a" "i < length (tensors m)"
      "alloc_loop new len i res m
        = alloc_loop new len (Suc i) (res[i := AtenTensorHandle a]) (box_input a i m)"
proof (cases "i < len")
  case False
  then show ?thesis using finished alloc_loop_done by blast
next
  case lt: True
  show ?thesis
  proof (cases "new (heap m)")
    case None
    then show ?thesis using lt bad_alloc alloc_loop_bad_alloc by blast
  next
    case (Some a)
    show ?thesis
    proof (cases "i < length (tensors m)")
      case True
      then show ?thesis using lt Some step alloc_loop_step by blast
    next
      case False
      then have "length (tensors m) \<le> i" by simp
      then show ?thesis using lt Some out_of_bounds alloc_loop_out_of_bounds by blast
    qed
  qed
qed

lemma alloc_loop_length:
  "alloc_loop new len i res m = (Inr hs, m') \<Longrightarrow> length hs = length res"
proof (induction "len - i" arbitrary: i res m)
  case 0
  then show ?case by (simp add: alloc_loop_done)
next
  case (Suc d)
  show ?case
  proof (cases new len i res m rule: alloc_loop_cases)
    case (step a)
    then have "length hs = length (res[i := AtenTensorHandle a])"
      using Suc.hyps(1)[of "Suc i"] Suc.hyps(2) Suc.prems by simp
    then show ?thesis by simp
  qed (use Suc.prems in auto)
qed


lemma box_input_simps [simp]:
  "handles (box_input a i m) = handles m"
  "length (tensors (box_input a i m)) = length (tensors m)"
  "heap (box_input a i m) = (heap m)(a \<mapsto> tensors m ! i)"
  "tensors (box_input a i m) = (tensors m)[i := MovedFrom]"
  by (simp_all add: box_input_def)

lemma alloc_loop_prefix:
  "alloc_loop new len i res m = (Inr hs, m') \<Longrightarrow> j < i \<Longrightarrow> hs ! j = res ! j"
proof (induction "len - i" arbitrary: i res m)
  case 0
  then show ?case by (simp add: alloc_loop_done)
next
  case (Suc d)
  show ?case
  proof (cases new len i res m rule: alloc_loop_cases)
    case (step a)
    then have "hs ! j = res[i := AtenTensorHandle a] ! j"
      using Suc.hyps(1)[of "Suc i"] Suc.hyps(2) Suc.prems by simp
    then show ?thesis using Suc.prems(2) by simp
  qed (use Suc.prems in auto)
qed

lemma alloc_loop_handles:
  "alloc_loop new len i res m = (r, m') \<Longrightarrow> handles m' = handles m"
proof (induction "len - i" arbitrary: i res m)
  case 0
  then show ?case by (simp add: alloc_loop_done)
next
  case (Suc d)
  show ?case
  proof (cases new len i res m rule: alloc_loop_cases)
    case (step a)
    then have "handles m' = handles (box_input a i m)"
      using Suc.hyps(1)[of "Suc i"] Suc.hyps(2) Suc.prems by simp
    then show ?thesis by simp
  qed (use Suc.prems in auto)
qed

lemma alloc_loop_heap_mono:
  "allocator_ok new \<Longrightarrow> alloc_loop new len i res m = (r, m') \<Longrightarrow> heap m b = Some v
    \<Longrightarrow> heap m' b = Some v"
proof (induction "len - i" arbitrary: i res m)
  case 0
  then show ?case by (simp add: alloc_loop_done)
next
  case (Suc d)
  show ?case
  proof (cases new len i res m rule: alloc_loop_cases)
    case (step a)
    have "b \<noteq> a"
      using allocator_okD[OF Suc.prems(1) step(2)] Suc.prems(3) by auto
    then have "heap (box_input a i m) b = Some v"
      using Suc.prems(3) by simp
    then show ?thesis
      using Suc.hyps(1)[of "Suc i"] Suc.hyps(2) Suc.prems(1,2) step by simp
  qed (use Suc.prems in auto)
qed

lemma alloc_loop_tensors:
  "alloc_loop new len i res m = (Inr hs, m') \<Longrightarrow> i \<le> len \<Longrightarrow>
     tensors m' = take i (tensors m) @ replicate (len - i) MovedFrom @ drop len (tensors m)"
proof (induction "len - i" arbitrary: i res m)
  case 0
  then show ?case by (simp add: alloc_loop_done)
next
  case (Suc d)
  show ?case
  proof (cases new len i res m rule: alloc_loop_cases)
    case (step a)
    have "tensors m' = take (Suc i) ((tensors m)[i := MovedFrom])
            @ replicate (len - Suc i) MovedFrom @ drop len ((tensors m)[i := MovedFrom])"
      using Suc.hyps(1)[of "Suc i"] Suc.hyps(2) Suc.prems step by simp
    moreover have "take (Suc i) ((tensors m)[i := MovedFrom]) = take i (tensors m) @ [MovedFrom]"
      using step(3) by (simp add: take_Suc_conv_app_nth)
    moreover have "drop len ((tensors m)[i := MovedFrom]) = drop len (tensors m)"
      using step(1) by simp
    moreover have "replicate (len - i) MovedFrom = (MovedFrom :: 'a tensor) # replicate (len - Suc i) MovedFrom"
      using step(1) by (simp add: Suc_diff_Suc flip: replicate_Suc)
    ultimately show ?thesis by simp
  qed (use Suc.prems in auto)
qed

lemma alloc_loop_in_bounds:
  "alloc_loop new len i res m = (Inr hs, m') \<Longrightarrow> i < len \<Longrightarrow> len \<le> length (tensors m)"
proof (induction "len - i" arbitrary: i res m)
  case 0
  then show ?case by simp
next
  case (Suc d)
  show ?case
  proof (cases new len i res m rule: alloc_loop_cases)
    case (step a)
    show ?thesis
    proof (cases "Suc i < len")
      case True
      have "d = len - Suc i" using Suc.hyps(2) by simp
      moreover have "alloc_loop new len (Suc i) (res[i := AtenTensorHandle a]) (box_input a i m) = (Inr hs, m')"
        using step(4) Suc.prems(1) by simp
      ultimately have "len \<le> length (tensors (box_input a i m))"
        using True by (rule Suc.hyps(1))
      then show ?thesis by simp
    next
      case False
      then show ?thesis using step(1,3) by simp
    qed
  qed (use Suc.prems in auto)
qed

lemma alloc_loop_boxes:
  "allocator_ok new \<Longrightarrow> alloc_loop new len i res m = (Inr hs, m') \<Longrightarrow> len \<le> length res
    \<Longrightarrow> i \<le> j \<Longrightarrow> j < len
    \<Longrightarrow> handle_bits (hs ! j) \<noteq> 0 \<and> heap m (handle_bits (hs ! j)) = None
        \<and> heap m' (handle_bits (hs ! j)) = Some (tensors m ! j)"
proof (induction "len - i" arbitrary: i res m)
  case 0
  then show ?case by simp
next
  case (Suc d)
  show ?case
  proof (cases new len i res m rule: alloc_loop_cases)
    case (step a)
    let ?res = "res[i := AtenTensorHandle a]" and ?m = "box_input a i m"
    have run: "alloc_loop new len (Suc i) ?res ?m = (Inr hs, m')"
      using step Suc.prems by simp
    have a: "a \<noteq> 0" "heap m a = None"
      using allocator_okD[OF Suc.prems(1) step(2)] by auto
    show ?thesis
    proof (cases "j = i")
      case True
      have "hs ! i = ?res ! i"
        using alloc_loop_prefix[OF run, of i] by simp
      then have "hs ! i = AtenTensorHandle a"
        using step(1) Suc.prems(3) by simp
      moreover have "heap m' a = Some (tensors m ! i)"
        using alloc_loop_heap_mono[OF Suc.prems(1) run, of a] by simp
      ultimately show ?thesis using a True by simp
    next
      case False
      then have "Suc i \<le> j" using Suc.prems(4) by simp
      then have ih: "handle_bits (hs ! j) \<noteq> 0 \<and> heap ?m (handle_bits (hs ! j)) = None
        \<and> heap m' (handle_bits (hs ! j)) = Some (tensors ?m ! j)"
        using Suc.hyps(1)[of "Suc i" ?res ?m] Suc.hyps(2) Suc.prems(1,3,5) run by simp
      then have "heap m (handle_bits (hs ! j)) = None"
        by (simp split: if_splits)
      then show ?thesis using ih False by simp
    qed
  qed (use Suc.prems in auto)
qed

lemma alloc_loop_distinct:
  "allocator_ok new \<Longrightarrow> alloc_loop new len i res m = (Inr hs, m') \<Longrightarrow> len \<le> length res
    \<Longrightarrow> i \<le> j \<Longrightarrow> j < k \<Longrightarrow> k < len
    \<Longrightarrow> handle_bits (hs ! j) \<noteq> handle_bits (hs ! k)"
proof (induction "len - i" arbitrary: i res m)
  case 0
  then show ?case by simp
next
  case (Suc d)
  show ?case
  proof (cases new len i res m rule: alloc_loop_cases)
    case (step a)
    let ?res = "res[i := AtenTensorHandle a]" and ?m = "box_input a i m"
    have run: "alloc_loop new len (Suc i) ?res ?m = (Inr hs, m')"
      using step Suc.prems by simp
    show ?thesis
    proof (cases "j = i")
      case True
      have "hs ! i = ?res ! i"
        using alloc_loop_prefix[OF run, of i] by simp
      then have "hs ! i = AtenTensorHandle a"
        using step(1) Suc.prems(3) by simp
      moreover have "heap ?m (handle_bits (hs ! k)) = None"
        using alloc_loop_boxes[OF Suc.prems(1) run, of k] Suc.prems(3,5,6) True by simp
      ultimately show ?thesis using True by (auto split: if_splits)
    next
      case False
      then have "Suc i \<le> j" using Suc.prems(4) by simp
      then show ?thesis
        using Suc.hyps(1)[of "Suc i" ?res ?m] Suc.hyps(2) Suc.prems(1,3,5,6) run by simp
    qed
  qed (use Suc.prems in auto)
qed

section \<open>Properties of the reclamation loop\<close>

lemma steal_slot_simps [simp]:
  "tensors (steal_slot i m) = tensors m"
  "handles (steal_slot i m) = (handles m)[i := nullptr]"
  "heap (steal_slot i m) = (heap m)(handle_bits (handles m ! i) \<mapsto> MovedFrom)"
  by (simp_all add: steal_slot_def)

lemma steal_loop_done:
  "\<not> i < len \<Longrightarrow> steal_loop len i res m = (Inr res, m)"
  by (simp add: steal_loop.simps)

lemma steal_loop_out_of_bounds:
  "i < len \<Longrightarrow> length (handles m) \<le> i \<Longrightarrow> steal_loop len i res m = (Inl OutOfBounds, m)"
  by (simp add: steal_loop.simps)

lemma steal_loop_null:
  "i < len \<Longrightarrow> i < length (handles m) \<Longrightarrow> handle_bits (handles m ! i) = 0
    \<Longrightarrow> steal_loop len i res m = (Inl NullDeref, m)"
  by (simp add: steal_loop.simps deref_def tensor_handle_to_tensor_pointer_def)

lemma steal_loop_dangling:
  "i < len \<Longrightarrow> i < length (handles m) \<Longrightarrow> handle_bits (handles m ! i) \<noteq> 0
    \<Longrightarrow> heap m (handle_bits (handles m ! i)) = None
    \<Longrightarrow> steal_loop len i res m = (Inl DanglingDeref, m)"
  by (simp add: steal_loop.simps deref_def tensor_handle_to_tensor_pointer_def)

lemma steal_loop_step:
  "i < len \<Longrightarrow> i < length (handles m) \<Longrightarrow> handle_bits (handles m ! i) \<noteq> 0
    \<Longrightarrow> heap m (handle_bits (handles m ! i)) = Some v
    \<Longrightarrow> steal_loop len i res m = steal_loop len (Suc i) (res @ [v]) (steal_slot i m)"
  by (subst steal_loop.simps)
     (simp add: deref_def tensor_handle_to_tensor_pointer_def move_construct_def steal_slot_def)

lemma steal_loop_cases:
  obtains (finished) "\<not> i < len" "steal_loop len i res m = (Inr res, m)"
  | (out_of_bounds) "i < len" "length (handles m) \<le> i"
      "steal_loop len i res m = (Inl OutOfBounds, m)"
  | (null) "i < len" "i < length (handles m)" "handle_bits (handles m ! i) = 0"
      "steal_loop len i res m = (Inl NullDeref, m)"
  | (dangling) "i < len" "i < length (handles m)" "handle_bits (handles m ! i) \<noteq> 0"
      "heap m (handle_bits (handles m ! i)) = None"
      "steal_loop len i res m = (Inl DanglingDeref, m)"
  | (step) v where "i < len" "i < length (handles m)" "handle_bits (handles m ! i) \<noteq> 0"
      "heap m (handle_bits (handles m ! i)) = Some v"
      "steal_loop len i res m = steal_loop len (Suc i) (res @ [v]) (steal_slot i m)"
proof (cases "i < len")
  case False
  then show ?thesis using finished steal_loop_done by blast
next
  case lt: True
  show ?thesis
  proof (cases "i < length (handles m)")
    case False
    then have "length (handles m) \<le> i" by simp
    then show ?thesis using lt out_of_bounds steal_loop_out_of_bounds by blast
  next
    case inb: True
    show ?thesis
    proof (cases "handle_bits (handles m ! i) = 0")
      case True
      then show ?thesis using lt inb null steal_loop_null by blast
    next
      case nz: False
      show ?thesis
      proof (cases "heap m (handle_bits (handles m ! i))")
        case None
        then show ?thesis using lt inb nz dangling steal_loop_dangling by blast
      next
        case (Some v)
        then show ?thesis using lt inb nz step steal_loop_step by blast
      qed
    qed
  qed
qed

text \<open>What the loop leaves alone, for every outcome.\<close>

lemma steal_loop_tensors:
  "steal_loop len i res m = (r, m') \<Longrightarrow> tensors m' = tensors m"
proof (induction "len - i" arbitrary: i res m)
  case 0
  then show ?case by (simp add: steal_loop_done)
next
  case (Suc d)
  show ?case
  proof (cases len i res m rule: steal_loop_cases)
    case (step v)
    then have "tensors m' = tensors (steal_slot i m)"
      using Suc.hyps(1)[of "Suc i"] Suc.hyps(2) Suc.prems by simp
    then show ?thesis by simp
  qed (use Suc.prems in auto)
qed

lemma steal_loop_handles_length:
  "steal_loop len i res m = (r, m') \<Longrightarrow> length (handles m') = length (handles m)"
proof (induction "len - i" arbitrary: i res m)
  case 0
  then show ?case by (simp add: steal_loop_done)
next
  case (Suc d)
  show ?case
  proof (cases len i res m rule: steal_loop_cases)
    case (step v)
    then have "length (handles m') = length (handles (steal_slot i m))"
      using Suc.hyps(1)[of "Suc i"] Suc.hyps(2) Suc.prems by simp
    then show ?thesis by simp
  qed (use Suc.prems in auto)
qed

lemma steal_loop_handles_frame:
  "steal_loop len i res m = (r, m') \<Longrightarrow> j < i \<or> len \<le> j \<Longrightarrow> handles m' ! j = handles m ! j"
proof (induction "len - i" arbitrary: i res m)
  case 0
  then show ?case by (simp add: steal_loop_done)
next
  case (Suc d)
  show ?case
  proof (cases len i res m rule: steal_loop_cases)
    case (step v)
    have "j \<noteq> i" using Suc.prems(2) step(1) by auto
    have "handles m' ! j = handles (steal_slot i m) ! j"
      using Suc.hyps(1)[of "Suc i"] Suc.hyps(2) Suc.prems step by auto
    then show ?thesis using \<open>j \<noteq> i\<close> by simp
  qed (use Suc.prems in auto)
qed

lemma steal_loop_dom:
  "steal_loop len i res m = (r, m') \<Longrightarrow> dom (heap m') = dom (heap m)"
proof (induction "len - i" arbitrary: i res m)
  case 0
  then show ?case by (simp add: steal_loop_done)
next
  case (Suc d)
  show ?case
  proof (cases len i res m rule: steal_loop_cases)
    case (step v)
    then have "dom (heap m') = dom (heap (steal_slot i m))"
      using Suc.hyps(1)[of "Suc i"] Suc.hyps(2) Suc.prems by simp
    then show ?thesis using step(4) by auto
  qed (use Suc.prems in auto)
qed

lemma steal_loop_heap_frame:
  "steal_loop len i res m = (r, m')
    \<Longrightarrow> \<forall>j. i \<le> j \<and> j < len \<and> j < length (handles m) \<longrightarrow> handle_bits (handles m ! j) \<noteq> b
    \<Longrightarrow> heap m' b = heap m b"
proof (induction "len - i" arbitrary: i res m)
  case 0
  then show ?case by (simp add: steal_loop_done)
next
  case (Suc d)
  show ?case
  proof (cases len i res m rule: steal_loop_cases)
    case (step v)
    have "\<forall>j. Suc i \<le> j \<and> j < len \<and> j < length (handles (steal_slot i m))
            \<longrightarrow> handle_bits (handles (steal_slot i m) ! j) \<noteq> b"
      using Suc.prems(2) by auto
    then have "heap m' b = heap (steal_slot i m) b"
      using Suc.hyps(1)[of "Suc i"] Suc.hyps(2) Suc.prems(1) step by simp
    moreover have "handle_bits (handles m ! i) \<noteq> b"
      using Suc.prems(2) step(1,2) by auto
    ultimately show ?thesis by simp
  qed (use Suc.prems in auto)
qed

text \<open>What a run that returns has done.\<close>

lemma steal_loop_in_bounds:
  "steal_loop len i res m = (Inr out, m') \<Longrightarrow> i < len \<Longrightarrow> len \<le> length (handles m)"
proof (induction "len - i" arbitrary: i res m)
  case 0
  then show ?case by simp
next
  case (Suc d)
  show ?case
  proof (cases len i res m rule: steal_loop_cases)
    case (step v)
    show ?thesis
    proof (cases "Suc i < len")
      case True
      have "d = len - Suc i" using Suc.hyps(2) by simp
      moreover have "steal_loop len (Suc i) (res @ [v]) (steal_slot i m) = (Inr out, m')"
        using step(5) Suc.prems(1) by simp
      ultimately have "len \<le> length (handles (steal_slot i m))"
        using True by (rule Suc.hyps(1))
      then show ?thesis by simp
    next
      case False
      then show ?thesis using step(1,2) by simp
    qed
  qed (use Suc.prems in auto)
qed

lemma steal_loop_nulled:
  "steal_loop len i res m = (Inr out, m') \<Longrightarrow> i \<le> j \<Longrightarrow> j < len \<Longrightarrow> handles m' ! j = nullptr"
proof (induction "len - i" arbitrary: i res m)
  case 0
  then show ?case by simp
next
  case (Suc d)
  show ?case
  proof (cases len i res m rule: steal_loop_cases)
    case (step v)
    have run: "steal_loop len (Suc i) (res @ [v]) (steal_slot i m) = (Inr out, m')"
      using step(5) Suc.prems(1) by simp
    show ?thesis
    proof (cases "j = i")
      case True
      have "handles m' ! i = handles (steal_slot i m) ! i"
        using steal_loop_handles_frame[OF run, of i] by simp
      then show ?thesis using True step(2) by simp
    next
      case False
      then have "Suc i \<le> j" using Suc.prems(2) by simp
      moreover have "d = len - Suc i" using Suc.hyps(2) by simp
      ultimately show ?thesis using Suc.hyps(1)[OF _ run] Suc.prems(3) by simp
    qed
  qed (use Suc.prems in auto)
qed

lemma steal_loop_result_prefix:
  "steal_loop len i res m = (Inr out, m') \<Longrightarrow>
     length out = length res + (len - i) \<and> take (length res) out = res"
proof (induction "len - i" arbitrary: i res m)
  case 0
  then show ?case by (simp add: steal_loop_done)
next
  case (Suc d)
  show ?case
  proof (cases len i res m rule: steal_loop_cases)
    case (step v)
    have run: "steal_loop len (Suc i) (res @ [v]) (steal_slot i m) = (Inr out, m')"
      using step(5) Suc.prems(1) by simp
    have "d = len - Suc i" using Suc.hyps(2) by simp
    then have ih: "length out = length (res @ [v]) + (len - Suc i) \<and> take (length (res @ [v])) out = res @ [v]"
      using run by (rule Suc.hyps(1))
    then have "take (length res) (take (length (res @ [v])) out) = take (length res) (res @ [v])"
      by simp
    then have "take (length res) out = res"
      by (simp add: min_def)
    then show ?thesis using ih step(1) by simp
  qed (use Suc.prems in auto)
qed

lemma steal_loop_live:
  "steal_loop len i res m = (Inr out, m') \<Longrightarrow> i \<le> j \<Longrightarrow> j < len
    \<Longrightarrow> handle_bits (handles m ! j) \<noteq> 0 \<and> heap m (handle_bits (handles m ! j)) \<noteq> None"
proof (induction "len - i" arbitrary: i res m)
  case 0
  then show ?case by simp
next
  case (Suc d)
  show ?case
  proof (cases len i res m rule: steal_loop_cases)
    case (step v)
    have run: "steal_loop len (Suc i) (res @ [v]) (steal_slot i m) = (Inr out, m')"
      using step(5) Suc.prems(1) by simp
    show ?thesis
    proof (cases "j = i")
      case True
      then show ?thesis using step(3,4) by simp
    next
      case False
      then have "Suc i \<le> j" using Suc.prems(2) by simp
      moreover have "d = len - Suc i" using Suc.hyps(2) by simp
      ultimately have "handle_bits (handles (steal_slot i m) ! j) \<noteq> 0
         \<and> heap (steal_slot i m) (handle_bits (handles (steal_slot i m) ! j)) \<noteq> None"
        using Suc.hyps(1)[OF _ run] Suc.prems(3) by simp
      then show ?thesis using False step(3,4) by (auto split: if_splits)
    qed
  qed (use Suc.prems in auto)
qed

lemma steal_loop_values:
  "steal_loop len i res m = (Inr out, m') \<Longrightarrow> length res = i \<Longrightarrow> i \<le> j \<Longrightarrow> j < len
    \<Longrightarrow> Some (out ! j) =
         (if \<exists>k. i \<le> k \<and> k < j \<and> handles m ! k = handles m ! j then Some MovedFrom
          else heap m (handle_bits (handles m ! j)))"
proof (induction "len - i" arbitrary: i res m)
  case 0
  then show ?case by simp
next
  case (Suc d)
  show ?case
  proof (cases len i res m rule: steal_loop_cases)
    case (step v)
    let ?m = "steal_slot i m"
    have run: "steal_loop len (Suc i) (res @ [v]) ?m = (Inr out, m')"
      using step(5) Suc.prems(1) by simp
    show ?thesis
    proof (cases "j = i")
      case True
      have "take (length (res @ [v])) out = res @ [v]"
        using steal_loop_result_prefix[OF run] by simp
      then have "take (Suc i) out ! i = (res @ [v]) ! i"
        using Suc.prems(2) by simp
      then have "out ! i = v" using Suc.prems(2) nth_append_length[of res v "[]"] by simp
      then show ?thesis using True step(4) by auto
    next
      case False
      then have lt: "Suc i \<le> j" "i < j" using Suc.prems(3) by simp_all
      have d: "d = len - Suc i" using Suc.hyps(2) by simp
      define P where "P \<longleftrightarrow> (\<exists>k. i \<le> k \<and> k < j \<and> handles m ! k = handles m ! j)"
      define Q where "Q \<longleftrightarrow> (\<exists>k. Suc i \<le> k \<and> k < j \<and> handles ?m ! k = handles ?m ! j)"
      have ih: "Some (out ! j) = (if Q then Some MovedFrom else heap ?m (handle_bits (handles ?m ! j)))"
        unfolding Q_def using Suc.hyps(1)[OF d run _ lt(1) Suc.prems(4)] Suc.prems(2) by simp
      have hj: "handles ?m ! j = handles m ! j" using False by simp
      have hk: "\<And>k. Suc i \<le> k \<Longrightarrow> handles ?m ! k = handles m ! k" by simp
      have ex: "P \<longleftrightarrow> handles m ! i = handles m ! j \<or> Q"
      proof
        assume P
        then obtain k where k: "i \<le> k" "k < j" "handles m ! k = handles m ! j"
          unfolding P_def by blast
        show "handles m ! i = handles m ! j \<or> Q"
        proof (cases "k = i")
          case True
          then show ?thesis using k by simp
        next
          case False
          then have "Suc i \<le> k" using k(1) by simp
          then have "Suc i \<le> k \<and> k < j \<and> handles ?m ! k = handles ?m ! j"
            using k hj hk by simp
          then show ?thesis unfolding Q_def by blast
        qed
      next
        assume "handles m ! i = handles m ! j \<or> Q"
        then show P
        proof
          assume "handles m ! i = handles m ! j"
          then have "i \<le> i \<and> i < j \<and> handles m ! i = handles m ! j" using lt(2) by simp
          then show P unfolding P_def by blast
        next
          assume Q
          then obtain k where k: "Suc i \<le> k" "k < j" "handles ?m ! k = handles ?m ! j"
            unfolding Q_def by blast
          then have "i \<le> k \<and> k < j \<and> handles m ! k = handles m ! j" using hj hk by simp
          then show P unfolding P_def by blast
        qed
      qed
      have hp: "heap ?m (handle_bits (handles ?m ! j)) =
          (if handles m ! i = handles m ! j then Some MovedFrom
           else heap m (handle_bits (handles m ! j)))"
      proof (cases "handles m ! i = handles m ! j")
        case True
        then show ?thesis using hj by simp
      next
        case ne: False
        then have "handle_bits (handles m ! i) \<noteq> handle_bits (handles m ! j)"
          using AtenTensorHandle.expand by blast
        then show ?thesis using hj ne by simp
      qed
      have "Some (out ! j) = (if P then Some MovedFrom else heap m (handle_bits (handles m ! j)))"
        unfolding ih hp ex by simp
      then show ?thesis unfolding P_def .
    qed
  qed (use Suc.prems in auto)
qed

lemma alloc_loop_extend:
  "alloc_loop new k i res m = (Inr hs, mk) \<Longrightarrow> i \<le> k \<Longrightarrow> k \<le> len
    \<Longrightarrow> alloc_loop new len i res m = alloc_loop new len k hs mk"
proof (induction "k - i" arbitrary: i res m)
  case 0
  then have "i = k" by simp
  then show ?case using "0.prems"(1) by (simp add: alloc_loop_done)
next
  case (Suc d)
  then have lt: "i < k" "i < len" by simp_all
  show ?case
  proof (cases new k i res m rule: alloc_loop_cases)
    case (step a)
    have d: "d = k - Suc i" using Suc.hyps(2) by simp
    have run: "alloc_loop new k (Suc i) (res[i := AtenTensorHandle a]) (box_input a i m) = (Inr hs, mk)"
      using step(4) Suc.prems(1) by simp
    have "alloc_loop new len (Suc i) (res[i := AtenTensorHandle a]) (box_input a i m)
           = alloc_loop new len k hs mk"
      using Suc.hyps(1)[OF d run] lt(1) Suc.prems(3) by simp
    then show ?thesis
      using alloc_loop_step[where new=new and m=m and a=a and i=i and len=len and res=res]
        lt(2) step(2,3) by simp
  qed (use Suc.prems lt in auto)
qed

lemma alloc_loop_pad:
  "alloc_loop new k i res m = (Inr hs, mk) \<Longrightarrow> k \<le> length res
    \<Longrightarrow> alloc_loop new k i (res @ xs) m = (Inr (hs @ xs), mk)"
proof (induction "k - i" arbitrary: i res m)
  case 0
  then show ?case by (simp add: alloc_loop_done)
next
  case (Suc d)
  then have lt: "i < k" by simp
  show ?case
  proof (cases new k i res m rule: alloc_loop_cases)
    case (step a)
    have d: "d = k - Suc i" using Suc.hyps(2) by simp
    have run: "alloc_loop new k (Suc i) (res[i := AtenTensorHandle a]) (box_input a i m) = (Inr hs, mk)"
      using step(4) Suc.prems(1) by simp
    have "alloc_loop new k (Suc i) (res[i := AtenTensorHandle a] @ xs) (box_input a i m)
           = (Inr (hs @ xs), mk)"
      using Suc.hyps(1)[OF d run] Suc.prems(2) by simp
    moreover have "(res @ xs)[i := AtenTensorHandle a] = res[i := AtenTensorHandle a] @ xs"
      using lt Suc.prems(2) by (simp add: list_update_append1)
    ultimately show ?thesis
      using alloc_loop_step[where new=new and m=m and a=a and i=i and len=k and res="res @ xs"]
        lt step(2,3) by simp
  qed (use Suc.prems lt in auto)
qed

lemma steal_loop_extend:
  "steal_loop k i res m = (Inr out, mk) \<Longrightarrow> i \<le> k \<Longrightarrow> k \<le> len
    \<Longrightarrow> steal_loop len i res m = steal_loop len k out mk"
proof (induction "k - i" arbitrary: i res m)
  case 0
  then have "i = k" by simp
  then show ?case using "0.prems"(1) by (simp add: steal_loop_done)
next
  case (Suc d)
  then have lt: "i < k" "i < len" by simp_all
  show ?case
  proof (cases k i res m rule: steal_loop_cases)
    case (step v)
    have d: "d = k - Suc i" using Suc.hyps(2) by simp
    have run: "steal_loop k (Suc i) (res @ [v]) (steal_slot i m) = (Inr out, mk)"
      using step(5) Suc.prems(1) by simp
    have "steal_loop len (Suc i) (res @ [v]) (steal_slot i m) = steal_loop len k out mk"
      using Suc.hyps(1)[OF d run] lt(1) Suc.prems(3) by simp
    then show ?thesis
      using steal_loop_step[OF lt(2) step(2,3,4), of res] by simp
  qed (use Suc.prems lt in auto)
qed

lemma steal_loop_succeeds:
  "len \<le> length (handles m)
    \<Longrightarrow> \<forall>j. i \<le> j \<and> j < len \<longrightarrow>
          handle_bits (handles m ! j) \<noteq> 0 \<and> heap m (handle_bits (handles m ! j)) \<noteq> None
    \<Longrightarrow> \<exists>out m'. steal_loop len i res m = (Inr out, m')"
proof (induction "len - i" arbitrary: i res m)
  case 0
  then show ?case by (simp add: steal_loop_done)
next
  case (Suc d)
  then have lt: "i < len" "i < length (handles m)" by simp_all
  have nz: "handle_bits (handles m ! i) \<noteq> 0" using Suc.prems(2) lt(1) by simp
  obtain v where v: "heap m (handle_bits (handles m ! i)) = Some v"
    using Suc.prems(2) lt(1) by auto
  have d: "d = len - Suc i" using Suc.hyps(2) by simp
  have len: "len \<le> length (handles (steal_slot i m))" using Suc.prems(1) by simp
  have live: "\<forall>j. Suc i \<le> j \<and> j < len \<longrightarrow>
      handle_bits (handles (steal_slot i m) ! j) \<noteq> 0
      \<and> heap (steal_slot i m) (handle_bits (handles (steal_slot i m) ! j)) \<noteq> None"
    using Suc.prems(2) by auto
  show ?case
    using Suc.hyps(1)[OF d len live, of "res @ [v]"] steal_loop_step[OF lt nz v, of res] by simp
qed

lemma steal_loop_shell_stays:
  "steal_loop len i res m = (r, m') \<Longrightarrow> heap m b = Some MovedFrom \<Longrightarrow> heap m' b = Some MovedFrom"
proof (induction "len - i" arbitrary: i res m)
  case 0
  then show ?case by (simp add: steal_loop_done)
next
  case (Suc d)
  show ?case
  proof (cases len i res m rule: steal_loop_cases)
    case (step v)
    have d: "d = len - Suc i" using Suc.hyps(2) by simp
    have run: "steal_loop len (Suc i) (res @ [v]) (steal_slot i m) = (r, m')"
      using step(5) Suc.prems(1) by simp
    have "heap (steal_slot i m) b = Some MovedFrom" using Suc.prems(2) by simp
    then show ?thesis using Suc.hyps(1)[OF d run] by simp
  qed (use Suc.prems in auto)
qed

lemma steal_loop_shells:
  "steal_loop len i res m = (Inr out, m') \<Longrightarrow> i \<le> j \<Longrightarrow> j < len
    \<Longrightarrow> heap m' (handle_bits (handles m ! j)) = Some MovedFrom"
proof (induction "len - i" arbitrary: i res m)
  case 0
  then show ?case by simp
next
  case (Suc d)
  show ?case
  proof (cases len i res m rule: steal_loop_cases)
    case (step v)
    have d: "d = len - Suc i" using Suc.hyps(2) by simp
    have run: "steal_loop len (Suc i) (res @ [v]) (steal_slot i m) = (Inr out, m')"
      using step(5) Suc.prems(1) by simp
    show ?thesis
    proof (cases "j = i")
      case True
      have "heap (steal_slot i m) (handle_bits (handles m ! i)) = Some MovedFrom" by simp
      then show ?thesis using steal_loop_shell_stays[OF run] True by simp
    next
      case False
      then have "Suc i \<le> j" using Suc.prems(2) by simp
      then have "heap m' (handle_bits (handles (steal_slot i m) ! j)) = Some MovedFrom"
        using Suc.hyps(1)[OF d run] Suc.prems(3) by simp
      then show ?thesis using False by simp
    qed
  qed (use Suc.prems in auto)
qed

lemma steal_loop_handles_prefix:
  assumes "steal_loop k 0 [] m = (Inr out, mk)"
  shows "handles mk = replicate k nullptr @ drop k (handles m)"
proof (rule nth_equalityI)
  have len: "length (handles mk) = length (handles m)"
    using steal_loop_handles_length[OF assms] .
  have inb: "k \<le> length (handles m)"
    using steal_loop_in_bounds[OF assms] by (cases "0 < k") simp_all
  show "length (handles mk) = length (replicate k nullptr @ drop k (handles m))"
    using len inb by simp
  fix j assume "j < length (handles mk)"
  then have j: "j < length (handles m)" using len by simp
  show "handles mk ! j = (replicate k nullptr @ drop k (handles m)) ! j"
  proof (cases "j < k")
    case True
    then show ?thesis using steal_loop_nulled[OF assms, of j] by (simp add: nth_append)
  next
    case False
    then show ?thesis
      using steal_loop_handles_frame[OF assms, of j] inb j by (simp add: nth_append)
  qed
qed

section \<open>The two calls and their loops\<close>

lemma vector_storage_0 [simp]: "vector_storage alloc h 0 = None"
  by (simp add: vector_storage_def)

lemma vector_storage_thrown:
  "vector_storage alloc h n = Some e \<Longrightarrow> e = BadAlloc \<or> e = LengthError"
proof -
  assume a: "vector_storage alloc h n = Some e"
  then obtain f where "e = thrown f"
    by (auto simp: vector_storage_def split: if_splits)
  then show ?thesis by (cases f) simp_all
qed

lemma unsafe_alloc_loop:
  "vector_storage (new_handle_vector rt) (heap m) n = None
    \<Longrightarrow> unsafe_alloc_new_handles_from_tensors rt n m
        = alloc_loop (new_tensor rt) n 0 (replicate n nullptr) m"
  by (simp add: unsafe_alloc_new_handles_from_tensors_def)

lemma unsafe_alloc_throws:
  "vector_storage (new_handle_vector rt) (heap m) n = Some e
    \<Longrightarrow> unsafe_alloc_new_handles_from_tensors rt n m = (Inl e, m)"
  by (simp add: unsafe_alloc_new_handles_from_tensors_def)

lemma unsafe_alloc_returned:
  assumes "unsafe_alloc_new_handles_from_tensors rt n m = (Inr hs, m')"
  shows "alloc_loop (new_tensor rt) n 0 (replicate n nullptr) m = (Inr hs, m')"
  using assms by (cases "vector_storage (new_handle_vector rt) (heap m) n")
    (simp_all add: unsafe_alloc_new_handles_from_tensors_def)

lemma steal_call_loop:
  "vector_storage (new_tensor_vector rt) (heap m) n = None
    \<Longrightarrow> alloc_tensors_by_stealing_from_handles rt n m = steal_loop n 0 [] m"
  by (simp add: alloc_tensors_by_stealing_from_handles_def)

lemma steal_call_throws:
  "vector_storage (new_tensor_vector rt) (heap m) n = Some e
    \<Longrightarrow> alloc_tensors_by_stealing_from_handles rt n m = (Inl e, m)"
  by (simp add: alloc_tensors_by_stealing_from_handles_def)

lemma steal_call_returned:
  assumes "alloc_tensors_by_stealing_from_handles rt n m = (Inr out, m')"
  shows "steal_loop n 0 [] m = (Inr out, m')"
  using assms by (cases "vector_storage (new_tensor_vector rt) (heap m) n")
    (simp_all add: alloc_tensors_by_stealing_from_handles_def)

lemma steal_call_cases:
  obtains (throws) e where "vector_storage (new_tensor_vector rt) (heap m) n = Some e"
      "alloc_tensors_by_stealing_from_handles rt n m = (Inl e, m)"
  | (loop) "vector_storage (new_tensor_vector rt) (heap m) n = None"
      "alloc_tensors_by_stealing_from_handles rt n m = steal_loop n 0 [] m"
  using steal_call_loop steal_call_throws
  by (cases "vector_storage (new_tensor_vector rt) (heap m) n") blast+

text \<open>With room for the boxes still to make, the allocation loop returns.\<close>

lemma alloc_loop_succeeds:
  "len \<le> length (tensors m)
    \<Longrightarrow> \<forall>h. dom (heap m) \<subseteq> dom h \<and> finite (dom h - dom (heap m))
            \<and> card (dom h - dom (heap m)) < len - i \<longrightarrow> new h \<noteq> None
    \<Longrightarrow> \<exists>hs m'. alloc_loop new len i res (m :: 'p memory) = (Inr hs, m')"
proof (induction "len - i" arbitrary: i res m)
  case 0
  then show ?case by (simp add: alloc_loop_done)
next
  case (Suc d)
  then have lt: "i < len" "i < length (tensors m)" by simp_all
  have "new (heap m) \<noteq> None"
    using Suc.prems(2) lt(1) by (auto dest!: spec[of _ "heap m"])
  then obtain a where a: "new (heap m) = Some a" by auto
  let ?m = "box_input a i m"
  have d: "d = len - Suc i" using Suc.hyps(2) by simp
  have len: "len \<le> length (tensors ?m)" using Suc.prems(1) by simp
  have room: "\<forall>h. dom (heap ?m) \<subseteq> dom h \<and> finite (dom h - dom (heap ?m))
            \<and> card (dom h - dom (heap ?m)) < len - Suc i \<longrightarrow> new h \<noteq> None"
  proof (intro allI impI)
    fix h :: "'p heap"
    assume h: "dom (heap ?m) \<subseteq> dom h \<and> finite (dom h - dom (heap ?m))
            \<and> card (dom h - dom (heap ?m)) < len - Suc i"
    define E where "E = dom h - dom (heap ?m)"
    have E: "finite E" "card E < len - Suc i" using h unfolding E_def by blast+
    have sub: "dom h - dom (heap m) \<subseteq> insert a E" unfolding E_def by auto
    have fin: "finite (insert a E)" using E(1) by simp
    have "card (dom h - dom (heap m)) \<le> card (insert a E)"
      using sub fin by (rule card_mono[rotated])
    also have "\<dots> \<le> Suc (card E)"
      using E(1) by (simp add: card_insert_if)
    finally have "card (dom h - dom (heap m)) < len - i" using E(2) lt(1) by linarith
    moreover have "finite (dom h - dom (heap m))" using sub fin by (rule finite_subset)
    moreover have "dom (heap m) \<subseteq> dom h" using h by auto
    ultimately show "new h \<noteq> None" using Suc.prems(2) by blast
  qed
  show ?case
    using Suc.hyps(1)[OF d len room, of "res[i := AtenTensorHandle a]"]
      alloc_loop_step[where new=new and m=m and a=a and i=i and len=len and res=res] lt a
    by simp
qed

section \<open>The scenario, evaluated\<close>

lemma list_update_Cons_numeral:
  "(x # xs)[numeral k := y] = x # xs[pred_numeral k := y]"
  by (simp add: numeral_eq_Suc)

lemma replicate_numeral:
  "replicate (numeral k) x = x # replicate (pred_numeral k) x"
  by (simp add: numeral_eq_Suc)

lemma all_less_3: "(\<forall>j<3::nat. P j) \<longleftrightarrow> P 0 \<and> P 1 \<and> P 2"
  by (simp add: numeral_3_eq_3 numeral_2_eq_2 All_less_Suc conj_ac)

lemma example_new_ok: "allocator_ok example_new"
  by (auto simp: allocator_ok_def example_new_def split: if_splits)

lemma example_small_new_ok: "allocator_ok example_small_new"
  by (auto simp: allocator_ok_def example_small_new_def split: if_splits)

lemma example_new_room: "has_room example_new (heap example_values) 3"
  unfolding has_room_def
proof (intro allI impI)
  fix h :: "string heap"
  assume h: "dom (heap example_values) \<subseteq> dom h
    \<and> finite (dom h - dom (heap example_values))
    \<and> card (dom h - dom (heap example_values)) < 3"
  then have fin: "finite (dom h)" and card: "card (dom h) < 3"
    by (simp_all add: example_values_def)
  show "example_new h \<noteq> None"
  proof
    assume "example_new h = None"
    then have "{16, 32, 48} \<subseteq> dom h"
      by (auto simp: example_new_def split: if_splits)
    then have "card {16, 32, 48 :: addr} \<le> card (dom h)"
      using fin by (rule card_mono[rotated])
    moreover have "card {16, 32, 48 :: addr} = 3" by simp
    ultimately show False using card by simp
  qed
qed

lemmas example_defs =
  example_new_def example_values_def example_boxed_def example_handles_def example_emptied_def
  example_small_new_def example_partial_def example_bound_def example_one_taken_def
  example_wide_def example_wide_emptied_def
  example_vectors_def example_runtime_def example_small_runtime_def vector_storage_def
  unsafe_alloc_new_handles_from_tensors_def alloc_tensors_by_stealing_from_handles_def
  alloc_loop.simps steal_loop.simps move_construct_def deref_def nullptr_def
  tensor_pointer_to_tensor_handle_def tensor_handle_to_tensor_pointer_def
  list_update_Cons_numeral replicate_numeral

lemma example_storage:
  "vector_storage (new_handle_vector example_runtime) h 3 = None"
  "vector_storage (new_tensor_vector example_runtime) h 3 = None"
  "vector_storage (new_handle_vector example_small_runtime) h 3 = None"
  by (simp_all add: example_defs)

lemma example_alloc:
  "unsafe_alloc_new_handles_from_tensors example_runtime 3 example_values
     = (Inr example_handles, example_boxed)"
  by (simp add: example_defs)

lemma example_steal:
  "alloc_tensors_by_stealing_from_handles example_runtime 3 example_bound
     = (Inr [Tensor ''A'', Tensor ''B'', Tensor ''C''], example_emptied)"
  by (simp add: example_defs)

lemma example_partial_loop:
  "alloc_loop (new_tensor example_small_runtime) 2 0 (replicate 3 nullptr) example_values
     = (Inr [AtenTensorHandle 16, AtenTensorHandle 32, nullptr], example_partial)"
  by (simp add: example_defs)

lemma example_partial_full: "new_tensor example_small_runtime (heap example_partial) = None"
  by (simp add: example_defs)

lemma example_steal_one:
  "steal_loop 1 0 [] example_bound = (Inr [Tensor ''A''], example_one_taken)"
  by (simp add: example_defs fun_eq_iff)

lemma example_steal_wide:
  "alloc_tensors_by_stealing_from_handles example_runtime 3 example_wide
     = (Inr [Tensor ''A'', Tensor ''B'', Tensor ''C''], example_wide_emptied)"
  by (simp add: example_defs fun_eq_iff)

lemma handle_null_iff: "h = nullptr \<longleftrightarrow> handle_bits h = 0"
  by (cases h) (simp add: nullptr_def)

lemma example_runtime_ok:
  "allocator_ok (new_tensor example_runtime)"
  "allocator_ok (new_tensor example_small_runtime)"
  using example_new_ok example_small_new_ok
  by (simp_all add: example_runtime_def example_small_runtime_def)

lemma example_runtime_room: "has_room (new_tensor example_runtime) (heap example_values) 3"
  using example_new_room by (simp add: example_runtime_def)

lemma example_bound_valid:
  "\<forall>j<3. j < length (handles example_bound) \<and> handles example_bound ! j \<noteq> nullptr
     \<and> heap example_bound (handle_bits (handles example_bound ! j)) \<noteq> None"
  by (simp add: all_less_3 example_bound_def example_handles_def example_boxed_def nullptr_def)

section \<open>Allocation followed by reclamation\<close>

text \<open>
  C1. Let bulk allocation of \<open>n\<close> values return the handles \<open>hs\<close>, and let a handle array
  hold \<open>hs\<close>. If \<^verbatim>\<open>reserve\<close> obtains the storage for the result, bulk reclamation of
  \<open>n\<close> handles returns exactly the first \<open>n\<close> values of the original input array, in
  their order, and leaves \<open>n\<close> null handles in the handle array. If \<^verbatim>\<open>reserve\<close> throws,
  the call ends with that error before the loop, and the handles are as they were. The
  allocation function is any that keeps the C++ guarantee (a new address is not null
  and not live).
\<close>

theorem allocate_then_reclaim:
  assumes "allocator_ok (new_tensor rt)"
    and "unsafe_alloc_new_handles_from_tensors rt n m = (Inr hs, m1)"
  shows "(vector_storage (new_tensor_vector rt) (heap m1) n = None \<longrightarrow>
            (\<exists>m2. alloc_tensors_by_stealing_from_handles rt n (m1\<lparr>handles := hs\<rparr>)
                     = (Inr (take n (tensors m)), m2)
                  \<and> handles m2 = replicate n nullptr))
         \<and> (\<forall>e. vector_storage (new_tensor_vector rt) (heap m1) n = Some e \<longrightarrow>
              alloc_tensors_by_stealing_from_handles rt n (m1\<lparr>handles := hs\<rparr>)
                = (Inl e, m1\<lparr>handles := hs\<rparr>))"
proof (intro conjI impI allI)
  fix e assume "vector_storage (new_tensor_vector rt) (heap m1) n = Some e"
  then show "alloc_tensors_by_stealing_from_handles rt n (m1\<lparr>handles := hs\<rparr>)
                = (Inl e, m1\<lparr>handles := hs\<rparr>)"
    by (simp add: steal_call_throws)
next
  assume storage: "vector_storage (new_tensor_vector rt) (heap m1) n = None"
  let ?s = "m1\<lparr>handles := hs\<rparr>"
  have run: "alloc_loop (new_tensor rt) n 0 (replicate n nullptr) m = (Inr hs, m1)"
    using assms(2) by (rule unsafe_alloc_returned)
  have len: "length hs = n"
    using alloc_loop_length[OF run] by simp
  have box: "handle_bits (hs ! j) \<noteq> 0 \<and> heap m1 (handle_bits (hs ! j)) = Some (tensors m ! j)"
    if "j < n" for j
    using alloc_loop_boxes[OF assms(1) run _ _ that] by simp
  have inb: "n \<le> length (tensors m)"
    using alloc_loop_in_bounds[OF run] by (cases "0 < n") simp_all
  have "\<exists>out m2. steal_loop n 0 [] ?s = (Inr out, m2)"
  proof (rule steal_loop_succeeds)
    show "n \<le> length (handles ?s)" using len by simp
    show "\<forall>j. 0 \<le> j \<and> j < n \<longrightarrow> handle_bits (handles ?s ! j) \<noteq> 0
            \<and> heap ?s (handle_bits (handles ?s ! j)) \<noteq> None"
      using box by simp
  qed
  then obtain out m2 where steal: "steal_loop n 0 [] ?s = (Inr out, m2)" by blast
  have olen: "length out = n"
    using steal_loop_result_prefix[OF steal] by simp
  have "out ! j = tensors m ! j" if j: "j < n" for j
  proof -
    have "\<not> (\<exists>k. 0 \<le> k \<and> k < j \<and> handles ?s ! k = handles ?s ! j)"
    proof
      assume "\<exists>k. 0 \<le> k \<and> k < j \<and> handles ?s ! k = handles ?s ! j"
      then obtain k where k: "k < j" "hs ! k = hs ! j" by auto
      have "handle_bits (hs ! k) \<noteq> handle_bits (hs ! j)"
        using alloc_loop_distinct[OF assms(1) run _ _ k(1) j] by simp
      then show False using k(2) by simp
    qed
    then have "Some (out ! j) = heap ?s (handle_bits (handles ?s ! j))"
      using steal_loop_values[OF steal _ _ j] by (auto split: if_splits)
    then show ?thesis using box[OF j] by simp
  qed
  then have "out = take n (tensors m)"
    using olen inb by (intro nth_equalityI) simp_all
  moreover have "handles m2 = replicate n nullptr"
  proof (rule nth_equalityI)
    show "length (handles m2) = length (replicate n nullptr)"
      using steal_loop_handles_length[OF steal] len by simp
    fix j assume "j < length (handles m2)"
    then have "j < n" using steal_loop_handles_length[OF steal] len by simp
    then show "handles m2 ! j = replicate n nullptr ! j"
      using steal_loop_nulled[OF steal, of j] by simp
  qed
  moreover have "alloc_tensors_by_stealing_from_handles rt n ?s = steal_loop n 0 [] ?s"
    using storage by (simp add: steal_call_loop)
  ultimately show "\<exists>m2. alloc_tensors_by_stealing_from_handles rt n ?s
                     = (Inr (take n (tensors m)), m2)
                  \<and> handles m2 = replicate n nullptr"
    using steal by simp
qed

theorem allocate_then_reclaim_witness:
  "allocator_ok (new_tensor example_runtime)
   \<and> unsafe_alloc_new_handles_from_tensors example_runtime 3 example_values
       = (Inr example_handles, example_boxed)
   \<and> vector_storage (new_tensor_vector example_runtime) (heap example_boxed) 3 = None
   \<and> (\<exists>m2. alloc_tensors_by_stealing_from_handles example_runtime 3
               (example_boxed\<lparr>handles := example_handles\<rparr>)
               = (Inr [Tensor ''A'', Tensor ''B'', Tensor ''C''], m2)
            \<and> handles m2 = [nullptr, nullptr, nullptr])"
  using allocate_then_reclaim[OF example_runtime_ok(1) example_alloc, THEN conjunct1]
    example_runtime_ok(1) example_alloc example_storage(2)[of "heap example_boxed"]
  by (simp add: example_values_def replicate_numeral)

section \<open>Positional correspondence\<close>

text \<open>
  C2. For every \<open>n\<close> (also 0 and 1) a bulk operation returns exactly \<open>n\<close> elements,
  element \<open>i\<close> coming from input \<open>i\<close>. The statement has four parts.
  Bulk allocation returns when the input array has \<open>n\<close> values, the vector gets its
  storage and the allocation function has room for \<open>n\<close> more boxes. When it returns,
  there are \<open>n\<close> handles, no two of them equal (each box is its own), and handle \<open>i\<close> is
  the non-null address of a box that was not live before the call and now holds the
  value that input slot \<open>i\<close> held, while the slot keeps the moved-from shell.
  Bulk reclamation returns when the handle array has \<open>n\<close> slots, each non-null and the
  address of a live box, and \<^verbatim>\<open>reserve\<close> gets its storage. When it returns, there are
  \<open>n\<close> values, and value \<open>i\<close> is what the box behind handle \<open>i\<close> held when the loop
  reached it: the content the box had before the call, or the shell when an earlier
  slot holds the same handle and the box was emptied there already; afterwards the box
  holds the shell.
\<close>

theorem bulk_operations_positional:
  "(has_room (new_tensor rt) (heap m) n \<and> n \<le> length (tensors m)
      \<and> vector_storage (new_handle_vector rt) (heap m) n = None \<longrightarrow>
      (\<exists>hs m'. unsafe_alloc_new_handles_from_tensors rt n m = (Inr hs, m')))
   \<and> (allocator_ok (new_tensor rt)
      \<and> unsafe_alloc_new_handles_from_tensors rt n m = (Inr hs, m') \<longrightarrow>
      length hs = n \<and> distinct hs
      \<and> (\<forall>i<n. i < length (tensors m)
            \<and> handle_bits (hs ! i) \<noteq> 0
            \<and> heap m (handle_bits (hs ! i)) = None
            \<and> heap m' (handle_bits (hs ! i)) = Some (tensors m ! i)
            \<and> tensors m' ! i = MovedFrom))
   \<and> (n \<le> length (handles s)
      \<and> (\<forall>j<n. handles s ! j \<noteq> nullptr \<and> heap s (handle_bits (handles s ! j)) \<noteq> None)
      \<and> vector_storage (new_tensor_vector rt) (heap s) n = None \<longrightarrow>
      (\<exists>out s'. alloc_tensors_by_stealing_from_handles rt n s = (Inr out, s')))
   \<and> (alloc_tensors_by_stealing_from_handles rt n s = (Inr out, s') \<longrightarrow>
      length out = n
      \<and> (\<forall>i<n. i < length (handles s)
            \<and> Some (out ! i) =
                (if \<exists>k<i. handles s ! k = handles s ! i then Some MovedFrom
                 else heap s (handle_bits (handles s ! i)))
            \<and> heap s' (handle_bits (handles s ! i)) = Some MovedFrom))"
proof (intro conjI impI allI)
  assume a: "has_room (new_tensor rt) (heap m) n \<and> n \<le> length (tensors m)
      \<and> vector_storage (new_handle_vector rt) (heap m) n = None"
  then have "\<exists>hs m'. alloc_loop (new_tensor rt) n 0 (replicate n nullptr) m = (Inr hs, m')"
    by (intro alloc_loop_succeeds) (simp_all add: has_room_def)
  then show "\<exists>hs m'. unsafe_alloc_new_handles_from_tensors rt n m = (Inr hs, m')"
    using a by (simp add: unsafe_alloc_loop)
next
  assume a: "allocator_ok (new_tensor rt)
      \<and> unsafe_alloc_new_handles_from_tensors rt n m = (Inr hs, m')"
  then have ok: "allocator_ok (new_tensor rt)"
    and run: "alloc_loop (new_tensor rt) n 0 (replicate n nullptr) m = (Inr hs, m')"
    by (simp_all add: unsafe_alloc_returned)
  show len: "length hs = n"
    using alloc_loop_length[OF run] by simp
  have "hs ! j \<noteq> hs ! k" if "j < k" "k < n" for j k
    using alloc_loop_distinct[OF ok run _ _ that] by auto
  then have "hs ! j \<noteq> hs ! k" if "j < n" "k < n" "j \<noteq> k" for j k
    using that by (metis nat_neq_iff)
  then show "distinct hs"
    using len by (simp add: distinct_conv_nth)
  fix i assume i: "i < n"
  have inb: "n \<le> length (tensors m)"
    using alloc_loop_in_bounds[OF run] i by simp
  then show "i < length (tensors m)" using i by simp
  show "handle_bits (hs ! i) \<noteq> 0" "heap m (handle_bits (hs ! i)) = None"
    "heap m' (handle_bits (hs ! i)) = Some (tensors m ! i)"
    using alloc_loop_boxes[OF ok run _ _ i] by simp_all
  have "tensors m' = replicate n MovedFrom @ drop n (tensors m)"
    using alloc_loop_tensors[OF run] by simp
  then show "tensors m' ! i = MovedFrom"
    using i by (simp add: nth_append)
next
  assume a: "n \<le> length (handles s)
      \<and> (\<forall>j<n. handles s ! j \<noteq> nullptr \<and> heap s (handle_bits (handles s ! j)) \<noteq> None)
      \<and> vector_storage (new_tensor_vector rt) (heap s) n = None"
  have "\<exists>out s'. steal_loop n 0 [] s = (Inr out, s')"
  proof (rule steal_loop_succeeds)
    show "n \<le> length (handles s)" using a by simp
    show "\<forall>j. 0 \<le> j \<and> j < n \<longrightarrow> handle_bits (handles s ! j) \<noteq> 0
            \<and> heap s (handle_bits (handles s ! j)) \<noteq> None"
      using a by (simp add: handle_null_iff)
  qed
  then show "\<exists>out s'. alloc_tensors_by_stealing_from_handles rt n s = (Inr out, s')"
    using a by (simp add: steal_call_loop)
next
  assume "alloc_tensors_by_stealing_from_handles rt n s = (Inr out, s')"
  then have run: "steal_loop n 0 [] s = (Inr out, s')"
    by (rule steal_call_returned)
  show "length out = n"
    using steal_loop_result_prefix[OF run] by simp
  fix i assume i: "i < n"
  show "i < length (handles s)"
    using steal_loop_in_bounds[OF run] i by simp
  show "Some (out ! i) =
          (if \<exists>k<i. handles s ! k = handles s ! i then Some MovedFrom
           else heap s (handle_bits (handles s ! i)))"
    using steal_loop_values[OF run _ _ i] by simp
  show "heap s' (handle_bits (handles s ! i)) = Some MovedFrom"
    using steal_loop_shells[OF run _ i] by simp
qed

theorem bulk_operations_positional_witness:
  "has_room (new_tensor example_runtime) (heap example_values) 3
   \<and> 3 \<le> length (tensors example_values)
   \<and> vector_storage (new_handle_vector example_runtime) (heap example_values) 3 = None
   \<and> allocator_ok (new_tensor example_runtime)
   \<and> unsafe_alloc_new_handles_from_tensors example_runtime 3 example_values
       = (Inr example_handles, example_boxed)
   \<and> length example_handles = 3 \<and> distinct example_handles
   \<and> heap example_values (handle_bits (example_handles ! 1)) = None
   \<and> heap example_boxed (handle_bits (example_handles ! 1)) = Some (tensors example_values ! 1)
   \<and> tensors example_boxed ! 1 = MovedFrom
   \<and> 3 \<le> length (handles example_bound)
   \<and> handles example_bound ! 1 \<noteq> nullptr
   \<and> heap example_bound (handle_bits (handles example_bound ! 1)) \<noteq> None
   \<and> vector_storage (new_tensor_vector example_runtime) (heap example_bound) 3 = None
   \<and> alloc_tensors_by_stealing_from_handles example_runtime 3 example_bound
       = (Inr [Tensor ''A'', Tensor ''B'', Tensor ''C''], example_emptied)
   \<and> Some ([Tensor ''A'', Tensor ''B'', Tensor ''C''] ! 1)
       = heap example_bound (handle_bits (handles example_bound ! 1))
   \<and> heap example_emptied (handle_bits (handles example_bound ! 1)) = Some MovedFrom"
proof -
  note t = bulk_operations_positional[where rt = example_runtime and n = 3
      and m = example_values and hs = example_handles and m' = example_boxed
      and s = example_bound
      and out = "[Tensor ''A'', Tensor ''B'', Tensor ''C'']" and s' = example_emptied]
  have len: "3 \<le> length (tensors example_values)" "3 \<le> length (handles example_bound)"
    by (simp_all add: example_values_def example_bound_def example_handles_def)
  have valid: "\<forall>j<3. handles example_bound ! j \<noteq> nullptr
      \<and> heap example_bound (handle_bits (handles example_bound ! j)) \<noteq> None"
    using example_bound_valid by blast
  have r1: "\<exists>hs m'. unsafe_alloc_new_handles_from_tensors example_runtime 3 example_values
      = (Inr hs, m')"
    using t example_runtime_room len(1) example_storage(1) by blast
  have r2: "length example_handles = 3 \<and> distinct example_handles
      \<and> (\<forall>i<3. i < length (tensors example_values)
            \<and> handle_bits (example_handles ! i) \<noteq> 0
            \<and> heap example_values (handle_bits (example_handles ! i)) = None
            \<and> heap example_boxed (handle_bits (example_handles ! i))
                = Some (tensors example_values ! i)
            \<and> tensors example_boxed ! i = MovedFrom)"
    using t example_runtime_ok(1) example_alloc by blast
  have r3: "\<exists>out s'. alloc_tensors_by_stealing_from_handles example_runtime 3 example_bound
      = (Inr out, s')"
    using t len(2) valid example_storage(2) by blast
  have r4: "\<forall>i<3. i < length (handles example_bound)
            \<and> Some ([Tensor ''A'', Tensor ''B'', Tensor ''C''] ! i) =
                (if \<exists>k<i. handles example_bound ! k = handles example_bound ! i
                 then Some MovedFrom
                 else heap example_bound (handle_bits (handles example_bound ! i)))
            \<and> heap example_emptied (handle_bits (handles example_bound ! i))
               = Some MovedFrom"
    using t example_steal by blast
  have nodup: "\<not> (\<exists>k<1. handles example_bound ! k = handles example_bound ! 1)"
    by (simp add: example_bound_def example_handles_def)
  have one: "(1::nat) < 3" by simp
  show ?thesis
    using r2 r2[THEN conjunct2, THEN conjunct2, rule_format, OF one] r4[rule_format, OF one]
      nodup valid[rule_format, OF one] len example_runtime_room example_runtime_ok(1)
      example_alloc example_steal example_storage(1)[of "heap example_values"]
      example_storage(2)[of "heap example_bound"]
    by simp
qed

section \<open>Coercion\<close>

text \<open>
  C3. Coercing a pointer to a handle and back returns the pointer, and coercing a handle
  to a pointer and back returns the handle: the two coercions are inverse to each other.
\<close>

theorem coercion_round_trip:
  "tensor_handle_to_tensor_pointer (tensor_pointer_to_tensor_handle p) = p
   \<and> tensor_pointer_to_tensor_handle (tensor_handle_to_tensor_pointer h) = h"
  by (simp add: tensor_handle_to_tensor_pointer_def tensor_pointer_to_tensor_handle_def)

section \<open>The order of bulk reclamation\<close>

text \<open>
  C4. Bulk reclamation works through the positions \<open>0, 1, \<dots>\<close> in order, and within
  a position it reads through the coerced handle before it stores null in the slot.
  First part, for a position \<open>k < n\<close> of a call whose \<^verbatim>\<open>reserve\<close> got its storage and
  whose slots before \<open>k\<close> are non-null addresses of live boxes: the loop reaches
  position \<open>k\<close>, that is, the call is the rest of the loop from a state with \<open>k\<close> values
  in the result, in which exactly the slots before \<open>k\<close> are null and every later slot
  is untouched. Iteration \<open>k\<close> reads, in that state, the box behind the handle that
  slot \<open>k\<close> held at the start. If the read is an error, the call ends there with that
  state, so slot \<open>k\<close> still holds its handle: the null store has not happened.
  Otherwise the value read is appended to the result, the box keeps the shell, slot
  \<open>k\<close> becomes null, and the call is the rest of the loop from position \<open>k + 1\<close>.
  Second part: when all \<open>n\<close> slots are non-null addresses of live boxes and \<^verbatim>\<open>reserve\<close>
  got its storage, the call returns \<open>n\<close> values and the first \<open>n\<close> slots are null.
  Third part: after any call that returns, the first \<open>n\<close> slots are null.
\<close>

theorem reclaim_in_order:
  "(k < n \<and> k < length (handles m)
      \<and> (\<forall>j<k. handles m ! j \<noteq> nullptr \<and> heap m (handle_bits (handles m ! j)) \<noteq> None)
      \<and> vector_storage (new_tensor_vector rt) (heap m) n = None \<longrightarrow>
      (\<exists>out mk. steal_loop k 0 [] m = (Inr out, mk)
          \<and> alloc_tensors_by_stealing_from_handles rt n m = steal_loop n k out mk
          \<and> length out = k
          \<and> handles mk = replicate k nullptr @ drop k (handles m)
          \<and> (case deref (tensor_handle_to_tensor_pointer (handles m ! k)) (heap mk) of
                Inl e \<Rightarrow> alloc_tensors_by_stealing_from_handles rt n m = (Inl e, mk)
              | Inr v \<Rightarrow>
                  alloc_tensors_by_stealing_from_handles rt n m =
                    steal_loop n (Suc k) (out @ [v])
                      (mk\<lparr>heap := (heap mk)(handle_bits (handles m ! k) \<mapsto> MovedFrom),
                          handles := (handles mk)[k := nullptr]\<rparr>))))
   \<and> (n \<le> length (handles m)
      \<and> (\<forall>j<n. handles m ! j \<noteq> nullptr \<and> heap m (handle_bits (handles m ! j)) \<noteq> None)
      \<and> vector_storage (new_tensor_vector rt) (heap m) n = None \<longrightarrow>
      (\<exists>out' m'. alloc_tensors_by_stealing_from_handles rt n m = (Inr out', m')
          \<and> length out' = n \<and> take n (handles m') = replicate n nullptr))
   \<and> (alloc_tensors_by_stealing_from_handles rt n m = (Inr res, mn) \<longrightarrow>
      n \<le> length (handles m) \<and> take n (handles mn) = replicate n nullptr)"
proof (intro conjI impI)
  assume "alloc_tensors_by_stealing_from_handles rt n m = (Inr res, mn)"
  then have run: "steal_loop n 0 [] m = (Inr res, mn)"
    by (rule steal_call_returned)
  show "n \<le> length (handles m)"
    using steal_loop_in_bounds[OF run] by (cases "0 < n") simp_all
  show "take n (handles mn) = replicate n nullptr"
    using steal_loop_handles_prefix[OF run] by simp
next
  assume a: "n \<le> length (handles m)
      \<and> (\<forall>j<n. handles m ! j \<noteq> nullptr \<and> heap m (handle_bits (handles m ! j)) \<noteq> None)
      \<and> vector_storage (new_tensor_vector rt) (heap m) n = None"
  have "\<exists>out' m'. steal_loop n 0 [] m = (Inr out', m')"
  proof (rule steal_loop_succeeds)
    show "n \<le> length (handles m)" using a by simp
    show "\<forall>j. 0 \<le> j \<and> j < n \<longrightarrow> handle_bits (handles m ! j) \<noteq> 0
            \<and> heap m (handle_bits (handles m ! j)) \<noteq> None"
      using a by (simp add: handle_null_iff)
  qed
  then obtain out' m' where run: "steal_loop n 0 [] m = (Inr out', m')" by blast
  have "length out' = n"
    using steal_loop_result_prefix[OF run] by simp
  moreover have "take n (handles m') = replicate n nullptr"
    using steal_loop_handles_prefix[OF run] by simp
  moreover have "alloc_tensors_by_stealing_from_handles rt n m = (Inr out', m')"
    using a run by (simp add: steal_call_loop)
  ultimately show "\<exists>out' m'. alloc_tensors_by_stealing_from_handles rt n m = (Inr out', m')
          \<and> length out' = n \<and> take n (handles m') = replicate n nullptr"
    by blast
next
  assume a: "k < n \<and> k < length (handles m)
      \<and> (\<forall>j<k. handles m ! j \<noteq> nullptr \<and> heap m (handle_bits (handles m ! j)) \<noteq> None)
      \<and> vector_storage (new_tensor_vector rt) (heap m) n = None"
  then have k: "k < n" "k < length (handles m)" by simp_all
  have call: "alloc_tensors_by_stealing_from_handles rt n m = steal_loop n 0 [] m"
    using a by (simp add: steal_call_loop)
  have "\<exists>out mk. steal_loop k 0 [] m = (Inr out, mk)"
  proof (rule steal_loop_succeeds)
    show "k \<le> length (handles m)" using k(2) by simp
    show "\<forall>j. 0 \<le> j \<and> j < k \<longrightarrow> handle_bits (handles m ! j) \<noteq> 0
            \<and> heap m (handle_bits (handles m ! j)) \<noteq> None"
      using a by (simp add: handle_null_iff)
  qed
  then obtain out mk where run: "steal_loop k 0 [] m = (Inr out, mk)" by blast
  have ext: "alloc_tensors_by_stealing_from_handles rt n m = steal_loop n k out mk"
    using steal_loop_extend[OF run, of n] k(1) call by simp
  have olen: "length out = k"
    using steal_loop_result_prefix[OF run] by simp
  have hs: "handles mk = replicate k nullptr @ drop k (handles m)"
    using steal_loop_handles_prefix[OF run] .
  have hk: "handles mk ! k = handles m ! k"
    using steal_loop_handles_frame[OF run, of k] by simp
  have lk: "k < length (handles mk)"
    using steal_loop_handles_length[OF run] k(2) by simp
  have "case deref (tensor_handle_to_tensor_pointer (handles m ! k)) (heap mk) of
            Inl e \<Rightarrow> alloc_tensors_by_stealing_from_handles rt n m = (Inl e, mk)
          | Inr v \<Rightarrow>
              alloc_tensors_by_stealing_from_handles rt n m =
                steal_loop n (Suc k) (out @ [v])
                  (mk\<lparr>heap := (heap mk)(handle_bits (handles m ! k) \<mapsto> MovedFrom),
                      handles := (handles mk)[k := nullptr]\<rparr>)"
  proof (cases n k out mk rule: steal_loop_cases)
    case null
    then show ?thesis
      using ext hk by (simp add: deref_def tensor_handle_to_tensor_pointer_def)
  next
    case dangling
    then show ?thesis
      using ext hk by (simp add: deref_def tensor_handle_to_tensor_pointer_def)
  next
    case (step v)
    then show ?thesis
      using ext hk
      by (simp add: deref_def tensor_handle_to_tensor_pointer_def steal_slot_def)
  qed (use k lk in simp_all)
  then show "\<exists>out mk. steal_loop k 0 [] m = (Inr out, mk)
          \<and> alloc_tensors_by_stealing_from_handles rt n m = steal_loop n k out mk
          \<and> length out = k
          \<and> handles mk = replicate k nullptr @ drop k (handles m)
          \<and> (case deref (tensor_handle_to_tensor_pointer (handles m ! k)) (heap mk) of
                Inl e \<Rightarrow> alloc_tensors_by_stealing_from_handles rt n m = (Inl e, mk)
              | Inr v \<Rightarrow>
                  alloc_tensors_by_stealing_from_handles rt n m =
                    steal_loop n (Suc k) (out @ [v])
                      (mk\<lparr>heap := (heap mk)(handle_bits (handles m ! k) \<mapsto> MovedFrom),
                          handles := (handles mk)[k := nullptr]\<rparr>))"
    using run ext olen hs by blast
qed

theorem reclaim_in_order_witness:
  "(1::nat) < 3 \<and> 1 < length (handles example_bound)
   \<and> handles example_bound ! 0 \<noteq> nullptr
   \<and> heap example_bound (handle_bits (handles example_bound ! 0)) \<noteq> None
   \<and> vector_storage (new_tensor_vector example_runtime) (heap example_bound) 3 = None
   \<and> steal_loop 1 0 [] example_bound = (Inr [Tensor ''A''], example_one_taken)
   \<and> alloc_tensors_by_stealing_from_handles example_runtime 3 example_bound
       = steal_loop 3 1 [Tensor ''A''] example_one_taken
   \<and> handles example_one_taken = replicate 1 nullptr @ drop 1 (handles example_bound)
   \<and> deref (tensor_handle_to_tensor_pointer (handles example_bound ! 1))
        (heap example_one_taken) = Inr (Tensor ''B'')
   \<and> alloc_tensors_by_stealing_from_handles example_runtime 3 example_bound
       = steal_loop 3 (Suc 1) ([Tensor ''A''] @ [Tensor ''B''])
           (example_one_taken
              \<lparr>heap := (heap example_one_taken)
                         (handle_bits (handles example_bound ! 1) \<mapsto> MovedFrom),
               handles := (handles example_one_taken)[1 := nullptr]\<rparr>)
   \<and> alloc_tensors_by_stealing_from_handles example_runtime 3 example_bound
       = (Inr [Tensor ''A'', Tensor ''B'', Tensor ''C''], example_emptied)
   \<and> take 3 (handles example_emptied) = replicate 3 nullptr"
proof -
  note t = reclaim_in_order[where rt = example_runtime and n = 3 and m = example_bound
      and k = 1 and res = "[Tensor ''A'', Tensor ''B'', Tensor ''C'']" and mn = example_emptied]
  have lt: "(1::nat) < 3" "1 < length (handles example_bound)"
    by (simp_all add: example_bound_def example_handles_def)
  have v0: "handles example_bound ! 0 \<noteq> nullptr
      \<and> heap example_bound (handle_bits (handles example_bound ! 0)) \<noteq> None"
    using example_bound_valid by simp
  then have valid: "\<forall>j<1. handles example_bound ! j \<noteq> nullptr
      \<and> heap example_bound (handle_bits (handles example_bound ! j)) \<noteq> None"
    by simp
  have st: "vector_storage (new_tensor_vector example_runtime) (heap example_bound) 3 = None"
    by (rule example_storage(2))
  have d: "deref (tensor_handle_to_tensor_pointer (handles example_bound ! 1))
        (heap example_one_taken) = Inr (Tensor ''B'')"
    by (simp add: example_bound_def example_handles_def example_one_taken_def deref_def
        tensor_handle_to_tensor_pointer_def)
  obtain out mk where o: "steal_loop 1 0 [] example_bound = (Inr out, mk)"
    "alloc_tensors_by_stealing_from_handles example_runtime 3 example_bound
       = steal_loop 3 1 out mk"
    "handles mk = replicate 1 nullptr @ drop 1 (handles example_bound)"
    "case deref (tensor_handle_to_tensor_pointer (handles example_bound ! 1)) (heap mk) of
       Inl e \<Rightarrow> alloc_tensors_by_stealing_from_handles example_runtime 3 example_bound
                  = (Inl e, mk)
     | Inr v \<Rightarrow>
         alloc_tensors_by_stealing_from_handles example_runtime 3 example_bound =
           steal_loop 3 (Suc 1) (out @ [v])
             (mk\<lparr>heap := (heap mk)(handle_bits (handles example_bound ! 1) \<mapsto> MovedFrom),
                 handles := (handles mk)[1 := nullptr]\<rparr>)"
    using t lt valid st by blast
  have eq: "out = [Tensor ''A'']" "mk = example_one_taken"
    using o(1) example_steal_one by simp_all
  have a: "take 3 (handles example_emptied) = replicate 3 nullptr"
    using t example_steal by blast
  show ?thesis
    using o(2,3,4) a lt v0 st d example_steal example_steal_one unfolding eq by simp
qed

section \<open>Zero-length arrays\<close>

text \<open>
  C5. With \<open>length = 0\<close> each bulk operation returns the empty sequence and the memory
  it was given, whatever the runtime would have answered: no box is added to the
  store, no vector storage is requested, and both input arrays are as they were.
\<close>

theorem zero_length_bulk_operations:
  "unsafe_alloc_new_handles_from_tensors rt 0 m = (Inr [], m)
   \<and> alloc_tensors_by_stealing_from_handles rt 0 m = (Inr [], m)"
  by (simp add: unsafe_alloc_new_handles_from_tensors_def
      alloc_tensors_by_stealing_from_handles_def alloc_loop_done steal_loop_done)

section \<open>Allocation failure\<close>

text \<open>
  C7. Let the vector of the result be constructed, and let the allocation function fail
  at element \<open>i < n\<close>: the first \<open>i\<close> iterations of the loop return, with the handles
  \<open>hs\<close> in the result vector and the memory \<open>mi\<close>, and in \<open>mi\<close> the allocation function
  answers with \<^verbatim>\<open>std::bad_alloc\<close>. Then the call ends in the error \<open>BadAlloc\<close> and
  returns no handles, and the memory it leaves is \<open>mi\<close> itself: nothing is rolled
  back. The \<open>i\<close> boxes made so far, which were not live before the call, are still live
  in it and hold the values of the input slots \<open>0 .. i - 1\<close>, and those slots keep the
  moved-from shell. The second part says that the first \<open>i\<close> iterations do return
  when the input array has \<open>i\<close> values and the allocation function has room for \<open>i\<close>
  boxes.
\<close>

theorem bad_alloc_leaks_earlier_boxes:
  "(allocator_ok (new_tensor rt) \<and> i < n
      \<and> vector_storage (new_handle_vector rt) (heap m) n = None
      \<and> alloc_loop (new_tensor rt) i 0 (replicate n nullptr) m = (Inr hs, mi)
      \<and> new_tensor rt (heap mi) = None \<longrightarrow>
      unsafe_alloc_new_handles_from_tensors rt n m = (Inl BadAlloc, mi)
      \<and> (\<forall>j<i. heap m (handle_bits (hs ! j)) = None
             \<and> heap mi (handle_bits (hs ! j)) = Some (tensors m ! j)
             \<and> tensors mi ! j = MovedFrom))
   \<and> (has_room (new_tensor rt) (heap m) i \<and> i \<le> length (tensors m) \<longrightarrow>
      (\<exists>hs mi. alloc_loop (new_tensor rt) i 0 (replicate n nullptr) m = (Inr hs, mi)))"
proof (intro conjI impI allI)
  assume "has_room (new_tensor rt) (heap m) i \<and> i \<le> length (tensors m)"
  then show "\<exists>hs mi. alloc_loop (new_tensor rt) i 0 (replicate n nullptr) m = (Inr hs, mi)"
    by (intro alloc_loop_succeeds) (simp_all add: has_room_def)
next
  assume a: "allocator_ok (new_tensor rt) \<and> i < n
      \<and> vector_storage (new_handle_vector rt) (heap m) n = None
      \<and> alloc_loop (new_tensor rt) i 0 (replicate n nullptr) m = (Inr hs, mi)
      \<and> new_tensor rt (heap mi) = None"
  then have ok: "allocator_ok (new_tensor rt)" and i: "i < n"
    and run: "alloc_loop (new_tensor rt) i 0 (replicate n nullptr) m = (Inr hs, mi)"
    and full: "new_tensor rt (heap mi) = None"
    by simp_all
  have "alloc_loop (new_tensor rt) n 0 (replicate n nullptr) m
      = alloc_loop (new_tensor rt) n i hs mi"
    using run i by (intro alloc_loop_extend) simp_all
  also have "\<dots> = (Inl BadAlloc, mi)"
    using i full by (rule alloc_loop_bad_alloc)
  finally show "unsafe_alloc_new_handles_from_tensors rt n m = (Inl BadAlloc, mi)"
    using a by (simp add: unsafe_alloc_loop)
  fix j assume j: "j < i"
  have "tensors mi = replicate i MovedFrom @ drop i (tensors m)"
    using alloc_loop_tensors[OF run] by simp
  then show "tensors mi ! j = MovedFrom"
    using j by (simp add: nth_append)
  show "heap m (handle_bits (hs ! j)) = None"
    "heap mi (handle_bits (hs ! j)) = Some (tensors m ! j)"
    using alloc_loop_boxes[OF ok run _ _ j] i by simp_all
qed

theorem bad_alloc_leaks_earlier_boxes_witness:
  "allocator_ok (new_tensor example_small_runtime) \<and> (2::nat) < 3
   \<and> vector_storage (new_handle_vector example_small_runtime) (heap example_values) 3 = None
   \<and> alloc_loop (new_tensor example_small_runtime) 2 0 (replicate 3 nullptr) example_values
       = (Inr [AtenTensorHandle 16, AtenTensorHandle 32, nullptr], example_partial)
   \<and> new_tensor example_small_runtime (heap example_partial) = None
   \<and> unsafe_alloc_new_handles_from_tensors example_small_runtime 3 example_values
       = (Inl BadAlloc, example_partial)
   \<and> heap example_values 32 = None
   \<and> heap example_partial 32 = Some (Tensor ''B'')
   \<and> tensors example_partial ! 1 = MovedFrom"
proof -
  have lt: "(2::nat) < 3" by simp
  note t = bad_alloc_leaks_earlier_boxes[where rt = example_small_runtime and i = 2 and n = 3
      and m = example_values and hs = "[AtenTensorHandle 16, AtenTensorHandle 32, nullptr]"
      and mi = example_partial, THEN conjunct1, rule_format]
  have r: "unsafe_alloc_new_handles_from_tensors example_small_runtime 3 example_values
        = (Inl BadAlloc, example_partial)
      \<and> (\<forall>j<2. heap example_values
                 (handle_bits ([AtenTensorHandle 16, AtenTensorHandle 32, nullptr] ! j)) = None
             \<and> heap example_partial
                 (handle_bits ([AtenTensorHandle 16, AtenTensorHandle 32, nullptr] ! j))
               = Some (tensors example_values ! j)
             \<and> tensors example_partial ! j = MovedFrom)"
    using t example_runtime_ok(2) lt example_storage(3)[of "heap example_values"]
      example_partial_loop example_partial_full by blast
  have one: "(1::nat) < 2" by simp
  show ?thesis
    using r[THEN conjunct1] r[THEN conjunct2, rule_format, OF one]
      example_runtime_ok(2) example_storage(3)[of "heap example_values"]
      example_partial_loop example_partial_full
    by (simp add: example_values_def)
qed

section \<open>The handles of a successful bulk allocation\<close>

text \<open>
  C8. When bulk allocation of \<open>n\<close> values succeeds, it returns \<open>n\<close> handles, none of
  them null and no two of them equal. The witness is the scenario of three values.
\<close>

theorem allocated_handles_distinct_non_null:
  assumes "allocator_ok (new_tensor rt)"
    and "unsafe_alloc_new_handles_from_tensors rt n m = (Inr hs, m')"
  shows "length hs = n \<and> distinct hs \<and> nullptr \<notin> set hs"
proof -
  have run: "alloc_loop (new_tensor rt) n 0 (replicate n nullptr) m = (Inr hs, m')"
    using assms(2) by (rule unsafe_alloc_returned)
  have len: "length hs = n"
    using alloc_loop_length[OF run] by simp
  have "hs ! j \<noteq> hs ! k" if "j < k" "k < n" for j k
    using alloc_loop_distinct[OF assms(1) run _ _ that] by auto
  then have "hs ! j \<noteq> hs ! k" if "j < n" "k < n" "j \<noteq> k" for j k
    using that by (metis nat_neq_iff)
  then have "distinct hs"
    using len by (simp add: distinct_conv_nth)
  moreover have "hs ! j \<noteq> nullptr" if "j < n" for j
    using alloc_loop_boxes[OF assms(1) run _ _ that] by (auto simp: nullptr_def)
  then have "nullptr \<notin> set hs"
    using len by (auto simp: in_set_conv_nth)
  ultimately show ?thesis using len by simp
qed

theorem allocated_handles_distinct_non_null_witness:
  "allocator_ok (new_tensor example_runtime)
   \<and> unsafe_alloc_new_handles_from_tensors example_runtime 3 example_values
       = (Inr example_handles, example_boxed)
   \<and> length example_handles = 3 \<and> distinct example_handles \<and> nullptr \<notin> set example_handles"
  using allocated_handles_distinct_non_null[OF example_runtime_ok(1) example_alloc]
    example_runtime_ok(1) example_alloc by simp

section \<open>No null dereference\<close>

text \<open>
  C9. Let each of the first \<open>n\<close> slots of the handle array exist, be non-null and hold the
  address of a live box. Then the loop of bulk reclamation reaches every position
  \<open>k < n\<close> without an error, and there the read through the coerced handle of slot \<open>k\<close>
  yields a value: the branch \<open>NullDeref\<close> is taken in no iteration. The call as a whole
  never ends in \<open>NullDeref\<close>; the only errors it can end in are those thrown by
  \<^verbatim>\<open>reserve\<close> before the loop (\<open>BadAlloc\<close>, \<open>LengthError\<close>), and when \<^verbatim>\<open>reserve\<close> gets its
  storage the call returns a result.
\<close>

theorem reclaim_never_dereferences_null:
  assumes "\<forall>j<n. j < length (handles m) \<and> handles m ! j \<noteq> nullptr
             \<and> heap m (handle_bits (handles m ! j)) \<noteq> None"
  shows "(\<forall>k<n. \<exists>out mk v. steal_loop k 0 [] m = (Inr out, mk)
            \<and> steal_loop n 0 [] m = steal_loop n k out mk
            \<and> deref (tensor_handle_to_tensor_pointer (handles mk ! k)) (heap mk) = Inr v)
         \<and> fst (alloc_tensors_by_stealing_from_handles rt n m) \<noteq> Inl NullDeref
         \<and> (\<forall>e. fst (alloc_tensors_by_stealing_from_handles rt n m) = Inl e \<longrightarrow>
               vector_storage (new_tensor_vector rt) (heap m) n = Some e
               \<and> (e = BadAlloc \<or> e = LengthError))
         \<and> (vector_storage (new_tensor_vector rt) (heap m) n = None \<longrightarrow>
               (\<exists>out m'. alloc_tensors_by_stealing_from_handles rt n m = (Inr out, m')))"
proof -
  have nz: "handle_bits (handles m ! j) \<noteq> 0" if "j < n" for j
    using assms that by (simp flip: handle_null_iff)
  have inb: "n \<le> length (handles m)"
  proof (cases n)
    case 0
    then show ?thesis by simp
  next
    case (Suc p)
    then have "p < length (handles m)" using assms by simp
    then show ?thesis using Suc by simp
  qed
  have ok: "\<exists>out mk. steal_loop k 0 [] m = (Inr out, mk)" if "k \<le> n" for k
  proof (rule steal_loop_succeeds)
    show "k \<le> length (handles m)" using inb that by simp
    show "\<forall>j. 0 \<le> j \<and> j < k \<longrightarrow> handle_bits (handles m ! j) \<noteq> 0
            \<and> heap m (handle_bits (handles m ! j)) \<noteq> None"
      using nz assms that by simp
  qed
  have iter: "\<exists>out mk v. steal_loop k 0 [] m = (Inr out, mk)
            \<and> steal_loop n 0 [] m = steal_loop n k out mk
            \<and> deref (tensor_handle_to_tensor_pointer (handles mk ! k)) (heap mk) = Inr v"
    if k: "k < n" for k
  proof -
    obtain out mk where run: "steal_loop k 0 [] m = (Inr out, mk)"
      using ok[of k] k by auto
    have ext: "steal_loop n 0 [] m = steal_loop n k out mk"
      using steal_loop_extend[OF run, of n] k by simp
    have hk: "handles mk ! k = handles m ! k"
      using steal_loop_handles_frame[OF run, of k] by simp
    have "dom (heap mk) = dom (heap m)"
      using steal_loop_dom[OF run] .
    moreover have "handle_bits (handles m ! k) \<in> dom (heap m)"
      using assms k by auto
    ultimately obtain v where "heap mk (handle_bits (handles m ! k)) = Some v"
      by auto
    then have "deref (tensor_handle_to_tensor_pointer (handles mk ! k)) (heap mk) = Inr v"
      using hk nz[OF k] by (simp add: deref_def tensor_handle_to_tensor_pointer_def)
    then show ?thesis
      using run ext by blast
  qed
  obtain out m' where full: "steal_loop n 0 [] m = (Inr out, m')"
    using ok[of n] by auto
  have call: "fst (alloc_tensors_by_stealing_from_handles rt n m) \<noteq> Inl NullDeref
         \<and> (\<forall>e. fst (alloc_tensors_by_stealing_from_handles rt n m) = Inl e \<longrightarrow>
               vector_storage (new_tensor_vector rt) (heap m) n = Some e
               \<and> (e = BadAlloc \<or> e = LengthError))
         \<and> (vector_storage (new_tensor_vector rt) (heap m) n = None \<longrightarrow>
               (\<exists>out m'. alloc_tensors_by_stealing_from_handles rt n m = (Inr out, m')))"
  proof -
    consider (throws) e where "vector_storage (new_tensor_vector rt) (heap m) n = Some e"
        "alloc_tensors_by_stealing_from_handles rt n m = (Inl e, m)"
      | (loop) "vector_storage (new_tensor_vector rt) (heap m) n = None"
        "alloc_tensors_by_stealing_from_handles rt n m = steal_loop n 0 [] m"
      by (rule steal_call_cases[where rt = rt and m = m and n = n])
    then show ?thesis
    proof cases
    case (throws e)
    then show ?thesis
      using vector_storage_thrown[OF throws(1)] by auto
  next
    case loop
    then show ?thesis using full by simp
  qed
  qed
  show ?thesis using iter call by blast
qed

theorem reclaim_never_dereferences_null_witness:
  "length (handles example_bound) = 3
   \<and> nullptr \<notin> set (handles example_bound)
   \<and> handle_bits ` set (handles example_bound) \<subseteq> dom (heap example_bound)
   \<and> (\<exists>out mk v. steal_loop 2 0 [] example_bound = (Inr out, mk)
          \<and> steal_loop 3 0 [] example_bound = steal_loop 3 2 out mk
          \<and> deref (tensor_handle_to_tensor_pointer (handles mk ! 2)) (heap mk) = Inr v)
   \<and> fst (alloc_tensors_by_stealing_from_handles example_runtime 3 example_bound)
       \<noteq> Inl NullDeref
   \<and> (\<exists>out m'. alloc_tensors_by_stealing_from_handles example_runtime 3 example_bound
         = (Inr out, m'))"
proof -
  note t = reclaim_never_dereferences_null[OF example_bound_valid, of example_runtime]
  have "\<exists>out mk v. steal_loop 2 0 [] example_bound = (Inr out, mk)
          \<and> steal_loop 3 0 [] example_bound = steal_loop 3 2 out mk
          \<and> deref (tensor_handle_to_tensor_pointer (handles mk ! 2)) (heap mk) = Inr v"
    using t by simp
  moreover have "fst (alloc_tensors_by_stealing_from_handles example_runtime 3 example_bound)
       \<noteq> Inl NullDeref"
    using t by blast
  moreover have "\<exists>out m'. alloc_tensors_by_stealing_from_handles example_runtime 3 example_bound
         = (Inr out, m')"
    using t example_storage(2)[of "heap example_bound"] by blast
  ultimately show ?thesis
    by (simp add: example_bound_def example_handles_def example_boxed_def nullptr_def)
qed

section \<open>What bulk reclamation leaves alone\<close>

text \<open>
  C10. Whatever its outcome, bulk reclamation with length \<open>n\<close> keeps the number of slots
  of the handle array and every slot from index \<open>n\<close> on, does not touch the array of
  values, makes no object live or dead, and changes the content of no object other than
  those behind the first \<open>n\<close> handles.
\<close>

theorem reclaim_frame:
  assumes "alloc_tensors_by_stealing_from_handles rt n m = (r, m')"
  shows "length (handles m') = length (handles m)
         \<and> drop n (handles m') = drop n (handles m)
         \<and> tensors m' = tensors m
         \<and> dom (heap m') = dom (heap m)
         \<and> (\<forall>b. b \<notin> handle_bits ` set (take n (handles m)) \<longrightarrow> heap m' b = heap m b)"
proof -
  consider (throws) e where "vector_storage (new_tensor_vector rt) (heap m) n = Some e"
      "alloc_tensors_by_stealing_from_handles rt n m = (Inl e, m)"
    | (loop) "vector_storage (new_tensor_vector rt) (heap m) n = None"
      "alloc_tensors_by_stealing_from_handles rt n m = steal_loop n 0 [] m"
    by (rule steal_call_cases[where rt = rt and m = m and n = n])
  then show ?thesis
  proof cases
  case (throws e)
  then have "m' = m" using assms by simp
  then show ?thesis by simp
next
  case loop
  then have run: "steal_loop n 0 [] m = (r, m')"
    using assms by simp
  have len: "length (handles m') = length (handles m)"
    using steal_loop_handles_length[OF run] .
  have "drop n (handles m') = drop n (handles m)"
  proof (rule nth_equalityI)
    show "length (drop n (handles m')) = length (drop n (handles m))" using len by simp
    fix j assume "j < length (drop n (handles m'))"
    then show "drop n (handles m') ! j = drop n (handles m) ! j"
      using steal_loop_handles_frame[OF run, of "n + j"] len by simp
  qed
  moreover have "heap m' b = heap m b" if b: "b \<notin> handle_bits ` set (take n (handles m))" for b
  proof (rule steal_loop_heap_frame[OF run], intro allI impI)
    fix j assume j: "0 \<le> j \<and> j < n \<and> j < length (handles m)"
    then have "handles m ! j \<in> set (take n (handles m))"
      by (auto simp: in_set_conv_nth intro!: exI[of _ j])
    then show "handle_bits (handles m ! j) \<noteq> b" using b by blast
  qed
  ultimately show ?thesis
    using len steal_loop_tensors[OF run] steal_loop_dom[OF run] by simp
  qed
qed

theorem reclaim_frame_witness:
  "alloc_tensors_by_stealing_from_handles example_runtime 3 example_wide
     = (Inr [Tensor ''A'', Tensor ''B'', Tensor ''C''], example_wide_emptied)
   \<and> length (handles example_wide_emptied) = length (handles example_wide)
   \<and> drop 3 (handles example_wide_emptied) = [AtenTensorHandle 64]
   \<and> drop 3 (handles example_wide) = [AtenTensorHandle 64]
   \<and> tensors example_wide_emptied = tensors example_wide
   \<and> dom (heap example_wide_emptied) = dom (heap example_wide)
   \<and> 64 \<notin> handle_bits ` set (take 3 (handles example_wide))
   \<and> heap example_wide_emptied 64 = heap example_wide 64"
proof -
  note t = reclaim_frame[OF example_steal_wide]
  have n: "64 \<notin> handle_bits ` set (take 3 (handles example_wide))"
    by (simp add: example_wide_def)
  then have "heap example_wide_emptied 64 = heap example_wide 64"
    using t by blast
  moreover have "drop 3 (handles example_wide) = [AtenTensorHandle 64]"
    by (simp add: example_wide_def)
  ultimately show ?thesis
    using t n example_steal_wide by simp
qed

end
